theory Spec2Isabelle
  imports Main "HOL-Library.AList"
begin

section \<open>Data model\<close>

text \<open>
  The crossword generator of \<^verbatim>\<open>generate.py\<close> (class \<^verbatim>\<open>CrosswordCreator\<close>).
  The module \<^verbatim>\<open>crossword\<close> that it imports (classes \<^verbatim>\<open>Variable\<close> and
  \<^verbatim>\<open>Crossword\<close>) is not part of the sources at hand; the generator only reads
  \<^verbatim>\<open>variable.length\<close>, \<^verbatim>\<open>crossword.variables\<close>, \<^verbatim>\<open>crossword.words\<close>,
  \<^verbatim>\<open>crossword.overlaps\<close> and \<^verbatim>\<open>crossword.neighbors\<close> from it.

  Python sets are modelled as lists without repetition, iterated in list order; a set
  comprehension keeps the order of the set it filters, and the iteration order of the set
  of slots is the order of the list \<open>variables\<close>. Python dictionaries are association
  lists in insertion order: \<^verbatim>\<open>d[k] = v\<close> is \<open>AList.update\<close> (in place for a
  present key, appended for a new one), \<^verbatim>\<open>d.get(k)\<close> is \<open>map_of d k\<close> and
  \<^verbatim>\<open>del d[k]\<close> is \<open>AList.delete\<close>. Exceptions are values of type \<open>error\<close>.
\<close>

datatype direction = ACROSS | DOWN

datatype variable =
  Variable (var_i: nat) (var_j: nat) (var_direction: direction) (var_length: nat)

type_synonym word = string

datatype error = IndexError | KeyError | TypeError

record crossword =
  variables :: "variable list"
  words :: "word list"
  overlaps :: "variable \<Rightarrow> variable \<Rightarrow> (nat \<times> nat) option"

type_synonym domains = "(variable \<times> word list) list"
type_synonym assignment = "(variable \<times> word) list"

text \<open>
  Modelled from the spec: \<^verbatim>\<open>Crossword.neighbors\<close>, which is missing from the sources.
  The spec gives it as the set of slots with which a slot has a defined overlap; the
  overlap itself is defined for ordered pairs of distinct slots.
\<close>

definition neighbors :: "crossword \<Rightarrow> variable \<Rightarrow> variable list" where
  "neighbors cw var = filter (\<lambda>v. v \<noteq> var \<and> overlaps cw v var \<noteq> None) (variables cw)"

text \<open>\<^verbatim>\<open>__init__\<close>: every slot starts with a copy of the whole word pool.\<close>

definition init_domains :: "crossword \<Rightarrow> domains" where
  "init_domains cw = map (\<lambda>var. (var, words cw)) (variables cw)"

section \<open>Node consistency\<close>

definition enforce_node_consistency :: "domains \<Rightarrow> domains" where
  "enforce_node_consistency D =
     map (\<lambda>(variable, ws). (variable, filter (\<lambda>word. length word = var_length variable) ws)) D"

section \<open>Arc consistency\<close>

text \<open>Indexing a string: \<^verbatim>\<open>w[k]\<close> raises \<^verbatim>\<open>IndexError\<close> beyond the end.\<close>

definition char_at :: "word \<Rightarrow> nat \<Rightarrow> error + char" where
  "char_at w k = (if k < length w then Inr (w ! k) else Inl IndexError)"

text \<open>
  The test \<^verbatim>\<open>xWord != yWord and xWord[xCross] == yWord[yCross]\<close>; the right operand
  is evaluated only when the words differ.
\<close>

definition arc_test :: "nat \<Rightarrow> nat \<Rightarrow> word \<Rightarrow> word \<Rightarrow> error + bool" where
  "arc_test xCross yCross xWord yWord =
     (if xWord \<noteq> yWord then
        (case char_at xWord xCross of
           Inl e \<Rightarrow> Inl e
         | Inr a \<Rightarrow> (case char_at yWord yCross of
                       Inl e \<Rightarrow> Inl e
                     | Inr b \<Rightarrow> Inr (a = b)))
      else Inr False)"

text \<open>\<^verbatim>\<open>newWords.add(xWord)\<close> on a set kept as a list.\<close>

definition set_add :: "'a \<Rightarrow> 'a list \<Rightarrow> 'a list" where
  "set_add x xs = (if x \<in> set xs then xs else xs @ [x])"

fun revise_inner :: "nat \<Rightarrow> nat \<Rightarrow> word \<Rightarrow> word list \<Rightarrow> word list \<Rightarrow> error + word list" where
  "revise_inner xCross yCross xWord [] newWords = Inr newWords"
| "revise_inner xCross yCross xWord (yWord # yWords) newWords =
     (case arc_test xCross yCross xWord yWord of
        Inl e \<Rightarrow> Inl e
      | Inr b \<Rightarrow> revise_inner xCross yCross xWord yWords
                  (if b then set_add xWord newWords else newWords))"

fun revise_outer :: "nat \<Rightarrow> nat \<Rightarrow> word list \<Rightarrow> word list \<Rightarrow> word list \<Rightarrow> error + word list" where
  "revise_outer xCross yCross [] yWords newWords = Inr newWords"
| "revise_outer xCross yCross (xWord # xWords) yWords newWords =
     (case revise_inner xCross yCross xWord yWords newWords of
        Inl e \<Rightarrow> Inl e
      | Inr newWords' \<Rightarrow> revise_outer xCross yCross xWords yWords newWords')"

text \<open>
  \<^verbatim>\<open>revise(x, y)\<close>. \<^verbatim>\<open>self.domains.get\<close> yields \<^verbatim>\<open>None\<close> for a missing key, and
  iterating over \<^verbatim>\<open>None\<close> raises \<^verbatim>\<open>TypeError\<close>; the inner loop over
  \<^verbatim>\<open>yWords\<close> starts only when \<^verbatim>\<open>xWords\<close> has an element. The result is the
  flag \<^verbatim>\<open>isRevised\<close> and the new domain store.
\<close>

definition revise :: "crossword \<Rightarrow> domains \<Rightarrow> variable \<Rightarrow> variable \<Rightarrow> error + (bool \<times> domains)" where
  "revise cw D x y =
     (case overlaps cw x y of
        None \<Rightarrow> Inr (False, D)
      | Some (xCross, yCross) \<Rightarrow>
          (case map_of D x of
             None \<Rightarrow> Inl TypeError
           | Some xWords \<Rightarrow>
               (if xWords = [] then Inr (False, AList.update x [] D)
                else (case map_of D y of
                        None \<Rightarrow> Inl TypeError
                      | Some yWords \<Rightarrow>
                          (case revise_outer xCross yCross xWords yWords [] of
                             Inl e \<Rightarrow> Inl e
                           | Inr newWords \<Rightarrow>
                               Inr (length xWords > length newWords,
                                    AList.update x newWords D))))))"

text \<open>
  The initial worklist of \<^verbatim>\<open>ac3\<close>: all arcs \<open>(x, y)\<close> with \<open>y\<close> a neighbour of \<open>x\<close>,
  appended in the iteration order of \<^verbatim>\<open>self.domains\<close>.
\<close>

definition all_arcs :: "crossword \<Rightarrow> domains \<Rightarrow> (variable \<times> variable) list" where
  "all_arcs cw D = concat (map (\<lambda>x. map (\<lambda>y. (x, y)) (neighbors cw x)) (map fst D))"

text \<open>The arcs \<open>(z, x)\<close> appended after a revision of \<open>x\<close> against \<open>y\<close>.\<close>

definition requeue :: "crossword \<Rightarrow> variable \<Rightarrow> variable \<Rightarrow> (variable \<times> variable) list" where
  "requeue cw x y = map (\<lambda>z. (z, x)) (filter (\<lambda>z. z \<noteq> y) (neighbors cw x))"

definition total_size :: "domains \<Rightarrow> nat" where
  "total_size D = sum_list (map (\<lambda>p. length (snd p)) D)"

text \<open>
  The \<^verbatim>\<open>while arc_queue\<close> loop. The deque is used as a stack (\<^verbatim>\<open>append\<close> and
  \<^verbatim>\<open>pop\<close> both work at the right end); the list holds it with the right end first,
  so that appending a sequence of arcs puts them in front in reverse order.
\<close>

function ac3_loop :: "crossword \<Rightarrow> (variable \<times> variable) list \<Rightarrow> domains \<Rightarrow> error + (bool \<times> domains)" where
  "ac3_loop cw [] D = Inr (True, D)"
| "ac3_loop cw ((x, y) # arc_queue) D =
     (case revise cw D x y of
        Inl e \<Rightarrow> Inl e
      | Inr (isRevised, D') \<Rightarrow>
          (if isRevised then
             (case map_of D' x of
                None \<Rightarrow> Inl TypeError
              | Some ws \<Rightarrow>
                  (if length ws = 0 then Inr (False, D')
                   else ac3_loop cw (rev (requeue cw x y) @ arc_queue) D'))
           else ac3_loop cw arc_queue D'))"
  by pat_completeness auto

text \<open>
  \<^verbatim>\<open>ac3(arcs=None)\<close>: the worklist is filled by \<^verbatim>\<open>append\<close> (or \<^verbatim>\<open>extend\<close>), so
  the last arc appended is the first one popped.
\<close>

definition ac3 :: "crossword \<Rightarrow> (variable \<times> variable) list option \<Rightarrow> domains \<Rightarrow> error + (bool \<times> domains)" where
  "ac3 cw arcs D =
     ac3_loop cw (rev (case arcs of None \<Rightarrow> all_arcs cw D | Some given \<Rightarrow> given)) D"

section \<open>Search\<close>

definition assignment_complete :: "assignment \<Rightarrow> domains \<Rightarrow> bool" where
  "assignment_complete a D = (length a = length D)"

text \<open>
  \<^verbatim>\<open>consistent(assignment)\<close>: the two nested loops over the assignment return
  \<^verbatim>\<open>False\<close> at the first disagreement; \<open>Inr True\<close> from a loop means that it
  ran to its end.
\<close>

fun consistent_inner :: "crossword \<Rightarrow> variable \<Rightarrow> word \<Rightarrow> assignment \<Rightarrow> error + bool" where
  "consistent_inner cw var1 word1 [] = Inr True"
| "consistent_inner cw var1 word1 ((var2, word2) # rest) =
     (if var1 = var2 then consistent_inner cw var1 word1 rest
      else (case overlaps cw var1 var2 of
              None \<Rightarrow> consistent_inner cw var1 word1 rest
            | Some (i, j) \<Rightarrow>
                (case char_at word1 i of
                   Inl e \<Rightarrow> Inl e
                 | Inr a \<Rightarrow>
                     (case char_at word2 j of
                        Inl e \<Rightarrow> Inl e
                      | Inr b \<Rightarrow>
                          (if a \<noteq> b then Inr False
                           else consistent_inner cw var1 word1 rest)))))"

fun consistent_outer :: "crossword \<Rightarrow> assignment \<Rightarrow> assignment \<Rightarrow> error + bool" where
  "consistent_outer cw [] a = Inr True"
| "consistent_outer cw ((var1, word1) # rest) a =
     (case consistent_inner cw var1 word1 a of
        Inl e \<Rightarrow> Inl e
      | Inr ok \<Rightarrow> (if ok then consistent_outer cw rest a else Inr False))"

definition consistent :: "crossword \<Rightarrow> assignment \<Rightarrow> domains \<Rightarrow> error + (bool \<times> domains)" where
  "consistent cw a D =
     (case ac3 cw None D of
        Inl e \<Rightarrow> Inl e
      | Inr (_, D') \<Rightarrow>
          (if list_ex (\<lambda>(key, val). var_length key \<noteq> length val) a then Inr (False, D')
           else (case consistent_outer cw a a of
                   Inl e \<Rightarrow> Inl e
                 | Inr ok \<Rightarrow> Inr (ok, D'))))"

text \<open>
  \<^verbatim>\<open>order_domain_values(var, assignment)\<close>. \<^verbatim>\<open>cross[0]\<close> on a missing overlap
  raises \<^verbatim>\<open>TypeError\<close>, and so does a loop over the domain of a slot that is not a
  key of the store.
\<close>

fun count_values :: "(nat \<times> nat) option \<Rightarrow> word \<Rightarrow> word list \<Rightarrow> nat \<Rightarrow> error + nat" where
  "count_values cross value [] count = Inr count"
| "count_values cross value (neighbor_value # rest) count =
     (case cross of
        None \<Rightarrow> Inl TypeError
      | Some (c0, c1) \<Rightarrow>
          (case char_at value c0 of
             Inl e \<Rightarrow> Inl e
           | Inr a \<Rightarrow>
               (case char_at neighbor_value c1 of
                  Inl e \<Rightarrow> Inl e
                | Inr b \<Rightarrow> count_values cross value rest (if a = b then count + 1 else count))))"

fun count_neighbors :: "crossword \<Rightarrow> domains \<Rightarrow> variable \<Rightarrow> word \<Rightarrow> variable list \<Rightarrow> nat \<Rightarrow> error + nat" where
  "count_neighbors cw D var value [] count = Inr count"
| "count_neighbors cw D var value (neighbor # rest) count =
     (case map_of D neighbor of
        None \<Rightarrow> Inl TypeError
      | Some neighbor_values \<Rightarrow>
          (case count_values (overlaps cw var neighbor) value neighbor_values count of
             Inl e \<Rightarrow> Inl e
           | Inr count' \<Rightarrow> count_neighbors cw D var value rest count'))"

fun constr_num :: "crossword \<Rightarrow> domains \<Rightarrow> variable \<Rightarrow> variable list \<Rightarrow> word list \<Rightarrow> (word \<times> nat) list \<Rightarrow> error + (word \<times> nat) list" where
  "constr_num cw D var ns [] constrNumDict = Inr constrNumDict"
| "constr_num cw D var ns (value # rest) constrNumDict =
     (case count_neighbors cw D var value ns 0 of
        Inl e \<Rightarrow> Inl e
      | Inr count \<Rightarrow> constr_num cw D var ns rest (AList.update value count constrNumDict))"

definition order_domain_values :: "crossword \<Rightarrow> domains \<Rightarrow> variable \<Rightarrow> assignment \<Rightarrow> error + word list" where
  "order_domain_values cw D var a =
     (let ns = filter (\<lambda>v. v \<notin> set (map fst a)) (neighbors cw var) in
      case map_of D var of
        None \<Rightarrow> Inl TypeError
      | Some values \<Rightarrow>
          (case constr_num cw D var ns values [] of
             Inl e \<Rightarrow> Inl e
           | Inr constrNumDict \<Rightarrow>
               Inr (sort_key (\<lambda>x. the (map_of constrNumDict x)) values)))"

text \<open>
  \<^verbatim>\<open>select_unassigned_variable(assignment)\<close>. In the tie branch
  \<^verbatim>\<open>neighbors(selected_key)\<close> is called while \<^verbatim>\<open>selected_key\<close> may still be
  \<^verbatim>\<open>None\<close>, which is not a slot of the puzzle: that call fails (a lookup of a
  missing key, \<open>KeyError\<close>).
\<close>

fun select_loop :: "crossword \<Rightarrow> domains \<Rightarrow> variable option \<Rightarrow> nat \<Rightarrow> error + variable option" where
  "select_loop cw [] selected_key min_val_size = Inr selected_key"
| "select_loop cw ((k, v) # rest) selected_key min_val_size =
     (if min_val_size > length v then select_loop cw rest (Some k) (length v)
      else if min_val_size = length v then
        (case selected_key of
           None \<Rightarrow> Inl KeyError
         | Some s \<Rightarrow>
             select_loop cw rest
               (if length (neighbors cw k) > length (neighbors cw s) then Some k else Some s)
               min_val_size)
      else select_loop cw rest selected_key min_val_size)"

definition unassigned :: "domains \<Rightarrow> assignment \<Rightarrow> domains" where
  "unassigned D a = filter (\<lambda>(k, v). k \<notin> set (map fst a)) D"

definition select_unassigned_variable :: "crossword \<Rightarrow> domains \<Rightarrow> assignment \<Rightarrow> error + variable option" where
  "select_unassigned_variable cw D a = select_loop cw (unassigned D a) None 10000"

text \<open>
  \<^verbatim>\<open>backtrack(assignment)\<close> and its \<^verbatim>\<open>for value in ...\<close> loop. The assignment is a
  dictionary that the calls mutate in place and the domain store is an attribute of the
  object; both are threaded through. The result is the returned value (\<open>None\<close> or the
  assignment), the dictionary as the call leaves it, and the domain store as the call
  leaves it. \<^verbatim>\<open>del\<close> of a missing key raises \<^verbatim>\<open>KeyError\<close>, and so does the
  neighbour lookup for \<^verbatim>\<open>None\<close> when no slot was selected.
\<close>

function backtrack :: "crossword \<Rightarrow> assignment \<Rightarrow> domains \<Rightarrow> error + (assignment option \<times> assignment \<times> domains)"
  and backtrack_loop :: "crossword \<Rightarrow> variable \<Rightarrow> word list \<Rightarrow> assignment \<Rightarrow> domains \<Rightarrow> error + (assignment option \<times> assignment \<times> domains)"
  where
  "backtrack cw a D =
     (if assignment_complete a D then Inr (Some a, a, D)
      else (case select_unassigned_variable cw D a of
              Inl e \<Rightarrow> Inl e
            | Inr None \<Rightarrow> Inl KeyError
            | Inr (Some unassigned_var) \<Rightarrow>
                (case order_domain_values cw D unassigned_var a of
                   Inl e \<Rightarrow> Inl e
                 | Inr vals \<Rightarrow> backtrack_loop cw unassigned_var vals a D)))"
| "backtrack_loop cw unassigned_var [] a D = Inr (None, a, D)"
| "backtrack_loop cw unassigned_var (value # rest) a D =
     (case consistent cw a D of
        Inl e \<Rightarrow> Inl e
      | Inr (_, D1) \<Rightarrow>
          (case order_domain_values cw D1 unassigned_var a of
             Inl e \<Rightarrow> Inl e
           | Inr vals' \<Rightarrow>
               (if value \<in> set vals' then
                  (case backtrack cw (AList.update unassigned_var value a)
                          (AList.update unassigned_var [value] D1) of
                     Inl e \<Rightarrow> Inl e
                   | Inr (Some result, a', D2) \<Rightarrow> Inr (Some result, a', D2)
                   | Inr (None, a', D2) \<Rightarrow>
                       (if unassigned_var \<in> set (map fst a')
                        then backtrack_loop cw unassigned_var rest
                               (AList.delete unassigned_var a') D2
                        else Inl KeyError))
                else backtrack_loop cw unassigned_var rest a D1)))"
  by pat_completeness auto

text \<open>\<^verbatim>\<open>solve()\<close>, with the domain store it leaves behind, and its returned value alone.\<close>

definition solve_state :: "crossword \<Rightarrow> error + (assignment option \<times> assignment \<times> domains)" where
  "solve_state cw =
     (case ac3 cw None (enforce_node_consistency (init_domains cw)) of
        Inl e \<Rightarrow> Inl e
      | Inr (_, D) \<Rightarrow> backtrack cw [] D)"

definition solve :: "crossword \<Rightarrow> error + assignment option" where
  "solve cw = (case solve_state cw of Inl e \<Rightarrow> Inl e | Inr (result, a, D) \<Rightarrow> Inr result)"

section \<open>Notions of the claims, and example puzzles\<close>

text \<open>A word of \<open>x\<close> is supported by the domain of \<open>y\<close>: some different word there
  carries the same character at the crossing.\<close>

definition supported :: "nat \<Rightarrow> nat \<Rightarrow> word list \<Rightarrow> word \<Rightarrow> bool" where
  "supported xCross yCross yWords xWord =
     (\<exists>yWord \<in> set yWords. xWord \<noteq> yWord \<and> xWord ! xCross = yWord ! yCross)"

definition domain_of :: "domains \<Rightarrow> variable \<Rightarrow> word list" where
  "domain_of D x = (case map_of D x of None \<Rightarrow> [] | Some ws \<Rightarrow> ws)"

text \<open>
  Two crossing slots of length 3: the second character of \<open>slotA\<close> (across) is the first
  of \<open>slotB\<close> (down).
\<close>

definition slotA :: variable where "slotA = Variable 0 0 ACROSS 3"

definition slotB :: variable where "slotB = Variable 0 1 DOWN 3"

definition two_slots :: crossword where
  "two_slots = \<lparr> variables = [slotA, slotB], words = [''CAT'', ''DOG'', ''TAP'', ''ART''],
     overlaps = (\<lambda>x y. if x = slotA \<and> y = slotB then Some (1, 0)
                        else if x = slotB \<and> y = slotA then Some (0, 1) else None) \<rparr>"

text \<open>Propagation and search only ever narrow the store: same keys, no new words.\<close>

definition narrows :: "domains \<Rightarrow> domains \<Rightarrow> bool" where
  "narrows D D' = (map fst D' = map fst D \<and> (\<forall>x. set (domain_of D' x) \<subseteq> set (domain_of D x)))"

text \<open>The length invariant of the store.\<close>

definition node_consistent :: "domains \<Rightarrow> bool" where
  "node_consistent D = (\<forall>v \<in> set (map fst D). \<forall>w \<in> set (domain_of D v). length w = var_length v)"

text \<open>A puzzle with one slot of length 3 and a pool of all 17576 three-letter strings.\<close>

definition letters :: string where
  "letters = ''ABCDEFGHIJKLMNOPQRSTUVWXYZ''"

definition all3 :: "word list" where
  "all3 = concat (map (\<lambda>a. concat (map (\<lambda>b. map (\<lambda>c. [a, b, c]) letters) letters)) letters)"

definition lone_slot :: variable where "lone_slot = Variable 0 0 ACROSS 3"

definition one_slot :: crossword where
  "one_slot = \<lparr> variables = [lone_slot], words = all3, overlaps = (\<lambda>x y. None) \<rparr>"

text \<open>
  The score of the value-ordering contract, in the spec's words: the number of pairs of a
  neighbour \<open>n\<close> of \<open>var\<close> outside the assignment and a word \<open>w'\<close> of the domain of
  \<open>n\<close> whose character at the crossing equals that of \<open>w\<close>.
\<close>

definition crossing_match :: "crossword \<Rightarrow> variable \<Rightarrow> word \<Rightarrow> variable \<Rightarrow> word \<Rightarrow> bool" where
  "crossing_match cw var w n w' =
     (case overlaps cw var n of None \<Rightarrow> False | Some (i, j) \<Rightarrow> w ! i = w' ! j)"

definition score :: "crossword \<Rightarrow> domains \<Rightarrow> assignment \<Rightarrow> variable \<Rightarrow> word \<Rightarrow> nat" where
  "score cw D a var w =
     card {(n, w'). n \<in> set (neighbors cw var) \<and> n \<notin> fst ` set a
             \<and> w' \<in> set (domain_of D n) \<and> crossing_match cw var w n w'}"

text \<open>What the loops of \<^verbatim>\<open>order_domain_values\<close> need to run without an exception.\<close>

definition ordering_ready :: "crossword \<Rightarrow> domains \<Rightarrow> assignment \<Rightarrow> variable \<Rightarrow> bool" where
  "ordering_ready cw D a var =
     (distinct (variables cw) \<and> map_of D var \<noteq> None \<and>
      (\<forall>n \<in> set (neighbors cw var). n \<notin> fst ` set a \<longrightarrow>
         map_of D n \<noteq> None \<and> distinct (domain_of D n) \<and>
         (case overlaps cw var n of
            None \<Rightarrow> False
          | Some (i, j) \<Rightarrow> (\<forall>w \<in> set (domain_of D var). i < length w)
                           \<and> (\<forall>w' \<in> set (domain_of D n). j < length w'))))"

text \<open>
  Arc consistency of the store for the ordered pair \<open>(x, y)\<close>: every word left for \<open>x\<close>
  has a different word in the domain of \<open>y\<close> with the same character at the crossing.
\<close>

definition arc_consistent :: "crossword \<Rightarrow> domains \<Rightarrow> variable \<Rightarrow> variable \<Rightarrow> bool" where
  "arc_consistent cw D x y =
     (case overlaps cw x y of
        None \<Rightarrow> True
      | Some (i, j) \<Rightarrow> (\<forall>w \<in> set (domain_of D x). supported i j (domain_of D y) w))"

text \<open>The pairs of words that \<^verbatim>\<open>revise(x, y)\<close> compares can be indexed at the crossing.\<close>

definition arc_safe :: "crossword \<Rightarrow> domains \<Rightarrow> variable \<Rightarrow> variable \<Rightarrow> bool" where
  "arc_safe cw D x y =
     (case overlaps cw x y of
        None \<Rightarrow> True
      | Some (i, j) \<Rightarrow>
          (\<forall>xw \<in> set (domain_of D x). \<forall>yw \<in> set (domain_of D y).
             xw = yw \<or> (i < length xw \<and> j < length yw)))"

definition arc_settled :: "crossword \<Rightarrow> domains \<Rightarrow> variable \<Rightarrow> variable \<Rightarrow> bool" where
  "arc_settled cw D x y = (arc_consistent cw D x y \<and> arc_safe cw D x y)"

text \<open>
  Modelled from the spec: the overlap relation of a puzzle is symmetric in existence, and
  the two index pairs of a crossing mirror each other.
\<close>

definition symmetric_overlaps :: "crossword \<Rightarrow> bool" where
  "symmetric_overlaps cw =
     (\<forall>x \<in> set (variables cw). \<forall>y \<in> set (variables cw).
        overlaps cw y x = map_option (\<lambda>(i, j). (j, i)) (overlaps cw x y))"

text \<open>
  The loop of \<^verbatim>\<open>ac3\<close> once more, recording what it does: the calls of \<^verbatim>\<open>revise\<close> in
  order (the arc, the store before, the flag returned and the store after) and the worklist
  that is left when the loop stops. An exception ends the record.
\<close>

type_synonym revise_call = "variable \<times> variable \<times> domains \<times> bool \<times> domains"

function ac3_trace :: "crossword \<Rightarrow> (variable \<times> variable) list \<Rightarrow> domains \<Rightarrow> revise_call list \<times> (variable \<times> variable) list" where
  "ac3_trace cw [] D = ([], [])"
| "ac3_trace cw ((x, y) # arc_queue) D =
     (case revise cw D x y of
        Inl e \<Rightarrow> ([], arc_queue)
      | Inr (isRevised, D') \<Rightarrow>
          (if isRevised then
             (case map_of D' x of
                None \<Rightarrow> ([(x, y, D, isRevised, D')], arc_queue)
              | Some ws \<Rightarrow>
                  (if length ws = 0 then ([(x, y, D, isRevised, D')], arc_queue)
                   else (case ac3_trace cw (rev (requeue cw x y) @ arc_queue) D' of
                           (calls, left) \<Rightarrow> ((x, y, D, isRevised, D') # calls, left))))
           else (case ac3_trace cw arc_queue D' of
                   (calls, left) \<Rightarrow> ((x, y, D, isRevised, D') # calls, left))))"
  by pat_completeness auto

definition ac3_calls :: "crossword \<Rightarrow> (variable \<times> variable) list option \<Rightarrow> domains \<Rightarrow> revise_call list \<times> (variable \<times> variable) list" where
  "ac3_calls cw arcs D =
     ac3_trace cw (rev (case arcs of None \<Rightarrow> all_arcs cw D | Some given \<Rightarrow> given)) D"

text \<open>
  A call of \<^verbatim>\<open>revise(x, y)\<close> left the domain of \<open>x\<close> empty: the state after the
  call, whatever the domain held before.
\<close>

definition left_empty :: "revise_call \<Rightarrow> bool" where
  "left_empty c = (case c of (x, y, D, isRevised, D') \<Rightarrow> domain_of D' x = [])"

text \<open>
  The narrower event that the loop of \<^verbatim>\<open>ac3\<close> tests for: the call found words in the
  domain of \<open>x\<close> and left none, that is, it returned \<^verbatim>\<open>True\<close> and the domain is empty.
\<close>

definition revised_to_empty :: "revise_call \<Rightarrow> bool" where
  "revised_to_empty c = (case c of (x, y, D, isRevised, D') \<Rightarrow> domain_of D x \<noteq> [] \<and> domain_of D' x = [])"

definition store_after :: "revise_call \<Rightarrow> domains" where
  "store_after c = (case c of (x, y, D, isRevised, D') \<Rightarrow> D')"

definition two_slots_short :: crossword where
  "two_slots_short = two_slots \<lparr> words := [''CAT'', ''DOG'', ''TAP''] \<rparr>"

text \<open>The two crossing slots of length 3 with a pool that has no word of that length.\<close>

definition two_slots_malformed :: crossword where
  "two_slots_malformed = two_slots \<lparr> words := [''AB'', ''WXYZ''] \<rparr>"

text \<open>
  The variant of \<^verbatim>\<open>backtrack\<close> named by claim C10: the call
  \<^verbatim>\<open>self.consistent(assignment)\<close> is replaced by a bare \<^verbatim>\<open>self.ac3()\<close>, whose result
  is dropped as well; everything else is as in \<open>backtrack\<close>.
\<close>

function backtrack_ac3 :: "crossword \<Rightarrow> assignment \<Rightarrow> domains \<Rightarrow> error + (assignment option \<times> assignment \<times> domains)"
  and backtrack_ac3_loop :: "crossword \<Rightarrow> variable \<Rightarrow> word list \<Rightarrow> assignment \<Rightarrow> domains \<Rightarrow> error + (assignment option \<times> assignment \<times> domains)"
  where
  "backtrack_ac3 cw a D =
     (if assignment_complete a D then Inr (Some a, a, D)
      else (case select_unassigned_variable cw D a of
              Inl e \<Rightarrow> Inl e
            | Inr None \<Rightarrow> Inl KeyError
            | Inr (Some unassigned_var) \<Rightarrow>
                (case order_domain_values cw D unassigned_var a of
                   Inl e \<Rightarrow> Inl e
                 | Inr vals \<Rightarrow> backtrack_ac3_loop cw unassigned_var vals a D)))"
| "backtrack_ac3_loop cw unassigned_var [] a D = Inr (None, a, D)"
| "backtrack_ac3_loop cw unassigned_var (value # rest) a D =
     (case ac3 cw None D of
        Inl e \<Rightarrow> Inl e
      | Inr (_, D1) \<Rightarrow>
          (case order_domain_values cw D1 unassigned_var a of
             Inl e \<Rightarrow> Inl e
           | Inr vals' \<Rightarrow>
               (if value \<in> set vals' then
                  (case backtrack_ac3 cw (AList.update unassigned_var value a)
                          (AList.update unassigned_var [value] D1) of
                     Inl e \<Rightarrow> Inl e
                   | Inr (Some result, a', D2) \<Rightarrow> Inr (Some result, a', D2)
                   | Inr (None, a', D2) \<Rightarrow>
                       (if unassigned_var \<in> set (map fst a')
                        then backtrack_ac3_loop cw unassigned_var rest
                               (AList.delete unassigned_var a') D2
                        else Inl KeyError))
                else backtrack_ac3_loop cw unassigned_var rest a D1)))"
  by pat_completeness auto

text \<open>
  Modelled from the spec: an overlap \<open>(i, j)\<close> of the slots \<open>x\<close> and \<open>y\<close> names a
  character position of \<open>x\<close> and one of \<open>y\<close>, so the indices lie within the slots.
\<close>

definition overlaps_in_range :: "crossword \<Rightarrow> bool" where
  "overlaps_in_range cw =
     (\<forall>x y i j. overlaps cw x y = Some (i, j) \<longrightarrow> i < var_length x \<and> j < var_length y)"

text \<open>
  A ring of four slots: \<open>ring_A1\<close> is row 0, columns 0 to 2; \<open>ring_D1\<close> is column 0, rows
  0 to 3; \<open>ring_D2\<close> is column 2, rows 0 to 4; \<open>ring_A2\<close> is row 2, columns 0 to 5. They
  cross at the four corners (0,0), (0,2), (2,0) and (2,2). The order of the slots is the
  iteration order of the set \<^verbatim>\<open>crossword.variables\<close>.
\<close>

definition ring_A1 :: variable where "ring_A1 = Variable 0 0 ACROSS 3"

definition ring_D1 :: variable where "ring_D1 = Variable 0 0 DOWN 4"

definition ring_D2 :: variable where "ring_D2 = Variable 0 2 DOWN 5"

definition ring_A2 :: variable where "ring_A2 = Variable 2 0 ACROSS 6"

definition ring_overlaps :: "((variable \<times> variable) \<times> (nat \<times> nat)) list" where
  "ring_overlaps =
     [((ring_A1, ring_D1), (0, 0)), ((ring_D1, ring_A1), (0, 0)),
      ((ring_A1, ring_D2), (2, 0)), ((ring_D2, ring_A1), (0, 2)),
      ((ring_A2, ring_D1), (0, 2)), ((ring_D1, ring_A2), (2, 0)),
      ((ring_A2, ring_D2), (2, 2)), ((ring_D2, ring_A2), (2, 2))]"

definition ring :: "variable list \<Rightarrow> word list \<Rightarrow> crossword" where
  "ring vs ws = \<lparr> variables = vs, words = ws, overlaps = (\<lambda>x y. map_of ring_overlaps (x, y)) \<rparr>"

definition ring_pool :: "word list" where
  "ring_pool = [''CAT'', ''DOG'', ''COLD'', ''DARK'', ''DIRT'', ''TONIC'', ''GAMES'', ''GAMMA'',
                ''GUMMY'', ''LAMENT'', ''RANDOM'', ''RINGER'', ''RUNNER'']"

text \<open>The ring puzzle in one iteration order, and its store after node and arc consistency.\<close>

definition ring_puzzle :: crossword where
  "ring_puzzle = ring [ring_A1, ring_A2, ring_D1, ring_D2] ring_pool"

definition ring_store :: domains where
  "ring_store =
     [(ring_A1, [''CAT'', ''DOG'']),
      (ring_A2, [''LAMENT'', ''RANDOM'', ''RINGER'', ''RUNNER'']),
      (ring_D1, [''COLD'', ''DARK'', ''DIRT'']),
      (ring_D2, [''TONIC'', ''GAMES'', ''GAMMA'', ''GUMMY''])]"

text \<open>The store that the failed search below \<open>ring_A1 = CAT\<close> leaves behind.\<close>

definition ring_failed_store :: domains where
  "ring_failed_store =
     [(ring_A1, []), (ring_A2, [''RANDOM'', ''RINGER'', ''RUNNER'']), (ring_D1, []), (ring_D2, [])]"

text \<open>
  What a solution of a puzzle is: one word of the pool for each slot, of the slot's length,
  with equal characters at every crossing. \<open>all_fillings\<close> lists every way to give each
  slot a word of its length.
\<close>

definition fits :: "crossword \<Rightarrow> assignment \<Rightarrow> bool" where
  "fits cw a =
     (distinct (map fst a) \<and> set (map fst a) = set (variables cw)
      \<and> list_all (\<lambda>(v, w). w \<in> set (words cw) \<and> length w = var_length v) a
      \<and> list_all (\<lambda>(v1, w1). list_all (\<lambda>(v2, w2). v1 = v2 \<or>
            (case overlaps cw v1 v2 of None \<Rightarrow> True | Some (i, j) \<Rightarrow> w1 ! i = w2 ! j)) a) a)"

fun all_fillings :: "variable list \<Rightarrow> word list \<Rightarrow> assignment list" where
  "all_fillings [] ws = [[]]"
| "all_fillings (v # vs) ws =
     concat (map (\<lambda>w. map (\<lambda>rest. (v, w) # rest) (all_fillings vs ws))
       (filter (\<lambda>w. length w = var_length v) ws))"

text \<open>All orders in which a set of slots can be iterated.\<close>

fun orders :: "'a list \<Rightarrow> 'a list list" where
  "orders [] = [[]]"
| "orders (x # xs) =
     concat (map (\<lambda>p. map (\<lambda>k. take k p @ [x] @ drop k p) [0..<Suc (length p)]) (orders xs))"

text \<open>The ring puzzle in the iteration order in which the search returns a wrong answer.\<close>

definition ring_puzzle_unsound :: crossword where
  "ring_puzzle_unsound = ring [ring_D2, ring_A2, ring_D1, ring_A1] ring_pool"

text \<open>
  A pool for the ring with exactly one solution, \<open>DOG\<close>, \<open>DARK\<close>, \<open>GAMES\<close>, \<open>REMOTE\<close>,
  and nine decoys.
\<close>

definition unique_pool :: "word list" where
  "unique_pool = [''DOG'', ''DARK'', ''GAMES'', ''REMOTE'',
                  ''CAT'', ''COLD'', ''DESK'', ''TONIC'', ''GRAPE'', ''LAMENT'', ''RANDOM'',
                  ''SUNSET'', ''LEADER'']"

definition unique_puzzle :: crossword where
  "unique_puzzle = ring [ring_A1, ring_A2, ring_D1, ring_D2] unique_pool"

section \<open>Termination of the propagation loop\<close>

lemma map_fst_update_present:
  "map_of D x = Some xs \<Longrightarrow> map fst (AList.update x ys D) = map fst D"
  by (induction D) (auto split: if_splits)

lemma total_size_update:
  "map_of D x = Some xs \<Longrightarrow> total_size (AList.update x ys D) + length xs = total_size D + length ys"
  by (induction D) (auto simp: total_size_def split: if_splits)

lemma arc_test_Inr:
  "arc_test xc yc xw yw = Inr b \<Longrightarrow> b = (xw \<noteq> yw \<and> xw ! xc = yw ! yc)"
  by (auto simp: arc_test_def char_at_def split: if_splits)

lemma set_add_idem: "set_add x (set_add x xs) = set_add x xs"
  by (simp add: set_add_def)

lemma revise_inner_Inr:
  "revise_inner xc yc xw ys acc = Inr r \<Longrightarrow>
   r = (if supported xc yc ys xw then set_add xw acc else acc)"
proof (induction ys arbitrary: acc)
  case Nil
  then show ?case by (simp add: supported_def)
next
  case (Cons yw ys)
  then obtain b where b: "arc_test xc yc xw yw = Inr b"
    and r: "revise_inner xc yc xw ys (if b then set_add xw acc else acc) = Inr r"
    by (auto split: sum.splits)
  from arc_test_Inr[OF b] Cons.IH[OF r] show ?case
    by (auto simp: supported_def set_add_idem)
qed

lemma revise_outer_length:
  "revise_outer xc yc xs ys acc = Inr r \<Longrightarrow> length r \<le> length acc + length xs"
proof (induction xs arbitrary: acc)
  case Nil
  then show ?case by simp
next
  case (Cons xw xs)
  then obtain a where a: "revise_inner xc yc xw ys acc = Inr a"
    and r: "revise_outer xc yc xs ys a = Inr r"
    by (auto split: sum.splits)
  from revise_inner_Inr[OF a] have "length a \<le> length acc + 1"
    by (auto simp: set_add_def split: if_splits)
  with Cons.IH[OF r] show ?case by simp
qed

lemma revise_keys:
  "revise cw D x y = Inr (b, D') \<Longrightarrow> map fst D' = map fst D"
  by (auto simp: revise_def map_fst_update_present split: option.splits if_splits sum.splits prod.splits)

lemma revise_total_size:
  assumes rv: "revise cw D x y = Inr (b, D')"
  shows "if b then total_size D' < total_size D else total_size D' = total_size D"
proof (cases "overlaps cw x y")
  case None
  with rv show ?thesis by (auto simp: revise_def)
next
  case (Some c)
  obtain xc yc where c: "c = (xc, yc)" by (cases c)
  from rv Some c obtain xs where xs: "map_of D x = Some xs"
    by (auto simp: revise_def split: option.splits)
  show ?thesis
  proof (cases "xs = []")
    case True
    with rv Some c xs total_size_update[OF xs, of "[]"] show ?thesis
      by (auto simp: revise_def)
  next
    case False
    with rv Some c xs obtain ys new where ys: "map_of D y = Some ys"
      and new: "revise_outer xc yc xs ys [] = Inr new"
      and b: "b = (length new < length xs)" and D': "D' = AList.update x new D"
      by (auto simp: revise_def split: option.splits sum.splits)
    from revise_outer_length[OF new] total_size_update[OF xs, of new] b D'
    show ?thesis by auto
  qed
qed

termination ac3_loop
proof (relation "measures [\<lambda>(cw, q, D). total_size D, \<lambda>(cw, q, D). length q]")
qed (auto dest: revise_total_size)

lemma ac3_loop_keys:
  "ac3_loop cw q D = Inr (b, D') \<Longrightarrow> map fst D' = map fst D"
proof (induction cw q D rule: ac3_loop.induct)
  case (1 cw D)
  then show ?case by simp
next
  case (2 cw x y arc_queue D)
  from "2.prems" obtain r D1 where rv: "revise cw D x y = Inr (r, D1)"
    by (auto split: sum.splits)
  note k = revise_keys[OF rv]
  show ?case
  proof (cases r)
    case True
    with "2.prems" rv obtain ws where ws: "map_of D1 x = Some ws"
      by (auto split: option.splits)
    show ?thesis
    proof (cases "length ws = 0")
      case True
      with "2.prems" rv ws \<open>r\<close> k show ?thesis by auto
    next
      case False
      with "2.prems" rv ws \<open>r\<close> have "ac3_loop cw (rev (requeue cw x y) @ arc_queue) D1 = Inr (b, D')"
        by auto
      from "2.IH"(1)[OF rv refl \<open>r\<close> ws False this] k show ?thesis by simp
    qed
  next
    case False
    with "2.prems" rv have "ac3_loop cw arc_queue D1 = Inr (b, D')" by auto
    from "2.IH"(2)[OF rv refl False this] k show ?thesis by simp
  qed
qed

lemma ac3_keys: "ac3 cw arcs D = Inr (b, D') \<Longrightarrow> map fst D' = map fst D"
  by (auto simp: ac3_def dest: ac3_loop_keys)

lemma consistent_keys: "consistent cw a D = Inr (b, D') \<Longrightarrow> map fst D' = map fst D"
  by (auto simp: consistent_def split: sum.splits if_splits prod.splits dest: ac3_keys)

section \<open>Termination of the search\<close>

lemma select_loop_mem:
  "select_loop cw us sel m = Inr (Some v) \<Longrightarrow> v \<in> fst ` set us \<or> sel = Some v"
  by (induction cw us sel m rule: select_loop.induct) (force split: if_splits option.splits)+

lemma select_unassigned_variable_mem:
  "select_unassigned_variable cw D a = Inr (Some v) \<Longrightarrow> v \<in> fst ` set D \<and> v \<notin> fst ` set a"
  by (force simp: select_unassigned_variable_def unassigned_def dest!: select_loop_mem)

lemma order_domain_values_key:
  "order_domain_values cw D var a = Inr vals \<Longrightarrow> \<exists>ws. map_of D var = Some ws"
  by (auto simp: order_domain_values_def Let_def split: option.splits)


lemma fst_set_delete: "fst ` set (AList.delete k al) = fst ` set al - {k}"
  by (induction al) auto

lemma backtrack_partial:
  "backtrack_backtrack_loop_dom (Inl (cw, a, D)) \<Longrightarrow>
     (\<forall>r a' D'. backtrack cw a D = Inr (r, a', D') \<longrightarrow>
        map fst D' = map fst D \<and> fst ` set a \<subseteq> fst ` set a')"
  "backtrack_backtrack_loop_dom (Inr (cw, var, vals, a, D)) \<Longrightarrow>
     (\<forall>r a' D'. backtrack_loop cw var vals a D = Inr (r, a', D') \<longrightarrow>
        map fst D' = map fst D \<and> fst ` set a \<subseteq> insert var (fst ` set a'))"
proof (induction rule: backtrack_backtrack_loop.pinduct)
  case (1 cw a D)
  show ?case
  proof (intro allI impI)
    fix r a' D'
    assume res: "backtrack cw a D = Inr (r, a', D')"
    show "map fst D' = map fst D \<and> fst ` set a \<subseteq> fst ` set a'"
    proof (cases "assignment_complete a D")
      case True
      with res "1.hyps" show ?thesis by (simp add: backtrack.psimps)
    next
      case False
      with res "1.hyps" obtain var vals where
        sel: "select_unassigned_variable cw D a = Inr (Some var)"
        and ord: "order_domain_values cw D var a = Inr vals"
        and lp: "backtrack_loop cw var vals a D = Inr (r, a', D')"
        by (auto simp: backtrack.psimps split: sum.splits option.splits)
      from "1.IH"[OF False sel refl ord] lp
      have "map fst D' = map fst D" "fst ` set a \<subseteq> insert var (fst ` set a')"
        by auto
      moreover from select_unassigned_variable_mem[OF sel] have "var \<notin> fst ` set a" by simp
      ultimately show ?thesis by auto
    qed
  qed
next
  case (2 cw unassigned_var a D)
  then show ?case by (auto simp: backtrack_loop.psimps)
next
  case (3 cw var "value" rest a D)
  show ?case
  proof (intro allI impI)
    fix r a' D'
    assume res: "backtrack_loop cw var (value # rest) a D = Inr (r, a', D')"
    from res "3.hyps" obtain c D1 vals' where
      con: "consistent cw a D = Inr (c, D1)"
      and ord: "order_domain_values cw D1 var a = Inr vals'"
      by (auto simp: backtrack_loop.psimps split: sum.splits)
    note k1 = consistent_keys[OF con]
    from order_domain_values_key[OF ord] obtain ws where ws: "map_of D1 var = Some ws" by blast
    show "map fst D' = map fst D \<and> fst ` set a \<subseteq> insert var (fst ` set a')"
    proof (cases "value \<in> set vals'")
      case False
      with res "3.hyps" con ord have "backtrack_loop cw var rest a D1 = Inr (r, a', D')"
        by (simp add: backtrack_loop.psimps)
      with "3.IH"(3)[OF con refl ord False] k1 show ?thesis by simp
    next
      case True
      let ?a1 = "AList.update var value a" and ?D1 = "AList.update var [value] D1"
      from res "3.hyps" con ord True obtain r2 a2 D2 where
        bt: "backtrack cw ?a1 ?D1 = Inr (r2, a2, D2)"
        by (auto simp: backtrack_loop.psimps split: sum.splits)
      from "3.IH"(1)[OF con refl ord True] bt
      have kD2: "map fst D2 = map fst ?D1" and ka2: "fst ` set ?a1 \<subseteq> fst ` set a2" by auto
      have kD1: "map fst ?D1 = map fst D" using map_fst_update_present[OF ws] k1 by simp
      have ka: "fst ` set a \<subseteq> fst ` set a2" using ka2 by (auto simp: dom_update)
      show ?thesis
      proof (cases r2)
        case (Some res')
        with res "3.hyps" con ord True bt have "r = Some res'" "a' = a2" "D' = D2"
          by (auto simp: backtrack_loop.psimps)
        with kD2 kD1 ka show ?thesis by auto
      next
        case None
        with res "3.hyps" con ord True bt have mem: "var \<in> set (map fst a2)"
          and lp: "backtrack_loop cw var rest (AList.delete var a2) D2 = Inr (r, a', D')"
          by (auto simp: backtrack_loop.psimps split: if_splits)
        from "3.IH"(2)[OF con refl ord True bt refl None refl mem] lp
        have e1: "map fst D' = map fst D2"
          and e2: "fst ` set (AList.delete var a2) \<subseteq> insert var (fst ` set a')"
          by auto
        from e2 ka have "fst ` set a \<subseteq> insert var (fst ` set a')"
          unfolding fst_set_delete by blast
        with e1 kD2 kD1 show ?thesis by simp
      qed
    qed
  qed
qed


lemma unassigned_count_insert:
  "v \<in> fst ` set D \<Longrightarrow> v \<notin> fst ` set a \<Longrightarrow>
   card (fst ` set D - insert v (fst ` set a)) < card (fst ` set D - fst ` set a)"
  by (rule psubset_card_mono) auto

termination backtrack
proof (relation "measures
    [\<lambda>x. case x of
        Inl (cw, a, D) \<Rightarrow> card (fst ` set D - fst ` set a)
      | Inr (cw, var, vals, a, D) \<Rightarrow> card (fst ` set D - insert var (fst ` set a)),
     \<lambda>x. case x of Inl _ \<Rightarrow> 0 | Inr _ \<Rightarrow> 1,
     \<lambda>x. case x of Inl _ \<Rightarrow> 0 | Inr (cw, var, vals, a, D) \<Rightarrow> length vals]",
    goal_cases)
  case 1
  then show ?case by simp
next
  case (2 cw a D x2 x2a x2b)
  then show ?case
    using select_unassigned_variable_mem[of cw D a x2a] unassigned_count_insert[of x2a D a]
    by simp
next
  case (3 cw var "value" rest a D b x y ba)
  from 3 have k: "map fst y = map fst D" using consistent_keys[of cw a D x y] by simp
  from 3 obtain ws where "map_of y var = Some ws" using order_domain_values_key by blast
  from map_fst_update_present[OF this, of "[value]"] k
  have "set (map fst (AList.update var [value] y)) = set (map fst D)" by simp
  then have "fst ` set (AList.update var [value] y) = fst ` set D" by simp
  then show ?case by (simp add: dom_update)
next
  case (4 cw var "value" rest a D b x y ba bb xa ya xb yb)
  let ?a1 = "AList.update var value a" and ?D1 = "AList.update var [value] y"
  from 4 have k: "map fst y = map fst D" using consistent_keys[of cw a D x y] by simp
  from 4 obtain ws where "map_of y var = Some ws" using order_domain_values_key by blast
  from map_fst_update_present[OF this, of "[value]"] k
  have kD1: "map fst ?D1 = map fst D" by simp
  from 4 have bt: "backtrack cw ?a1 ?D1 = Inr (None, xb, yb)" by simp
  from 4 have dm: "backtrack_backtrack_loop_dom (Inl (cw, ?a1, ?D1))" by simp
  from backtrack_partial(1)[OF dm] bt
  have "map fst yb = map fst ?D1" and ka: "fst ` set ?a1 \<subseteq> fst ` set xb" by auto
  with kD1 have "set (map fst yb) = set (map fst D)" by simp
  then have kyb: "fst ` set yb = fst ` set D" by simp
  from ka have "fst ` set a \<subseteq> fst ` set xb" by (auto simp: dom_update)
  then have "fst ` set D - insert var (fst ` set (AList.delete var xb))
      \<subseteq> fst ` set D - insert var (fst ` set a)"
    unfolding fst_set_delete by blast
  then have "card (fst ` set D - insert var (fst ` set (AList.delete var xb)))
      \<le> card (fst ` set D - insert var (fst ` set a))"
    by (intro card_mono) auto
  with kyb show ?case by (simp add: less_or_eq_imp_le le_less)
next
  case (5 cw var "value" rest a D b x y ba)
  from 5 have k: "map fst y = map fst D" using consistent_keys[of cw a D x y] by simp
  then have "set (map fst y) = set (map fst D)" by simp
  then have "fst ` set y = fst ` set D" by simp
  then show ?case by simp
qed

lemma arc_test_ok:
  "xw = yw \<or> (xc < length xw \<and> yc < length yw) \<Longrightarrow>
   arc_test xc yc xw yw = Inr (xw \<noteq> yw \<and> xw ! xc = yw ! yc)"
  by (auto simp: arc_test_def char_at_def)

lemma supported_Cons:
  "supported xc yc (yw # ys) xw = ((xw \<noteq> yw \<and> xw ! xc = yw ! yc) \<or> supported xc yc ys xw)"
  by (simp add: supported_def)

lemma revise_inner_ok:
  "\<forall>yw \<in> set ys. xw = yw \<or> (xc < length xw \<and> yc < length yw) \<Longrightarrow>
   revise_inner xc yc xw ys acc = Inr (if supported xc yc ys xw then set_add xw acc else acc)"
proof (induction ys arbitrary: acc)
  case Nil
  then show ?case by (simp add: supported_def)
next
  case (Cons yw ys)
  let ?b = "xw \<noteq> yw \<and> xw ! xc = yw ! yc"
  from Cons.prems have t: "arc_test xc yc xw yw = Inr ?b"
    by (intro arc_test_ok) simp
  from Cons.prems have ih: "revise_inner xc yc xw ys acc' =
      Inr (if supported xc yc ys xw then set_add xw acc' else acc')" for acc'
    by (intro Cons.IH) simp
  show ?case
    by (cases ?b; cases "supported xc yc ys xw")
       (simp_all add: t ih supported_Cons set_add_idem)
qed

lemma revise_outer_ok:
  assumes "\<forall>xw \<in> set xs. \<forall>yw \<in> set ys. xw = yw \<or> (xc < length xw \<and> yc < length yw)"
    and "distinct xs" and "set acc \<inter> set xs = {}"
  shows "revise_outer xc yc xs ys acc = Inr (acc @ filter (supported xc yc ys) xs)"
  using assms
proof (induction xs arbitrary: acc)
  case Nil
  then show ?case by simp
next
  case (Cons xw xs)
  have i: "revise_inner xc yc xw ys acc =
      Inr (if supported xc yc ys xw then set_add xw acc else acc)"
    using Cons.prems by (intro revise_inner_ok) simp
  have a: "set_add xw acc = acc @ [xw]" using Cons.prems by (simp add: set_add_def)
  show ?case
  proof (cases "supported xc yc ys xw")
    case True
    have "revise_outer xc yc xs ys (acc @ [xw]) = Inr ((acc @ [xw]) @ filter (supported xc yc ys) xs)"
      using Cons.prems by (intro Cons.IH) auto
    with True i a show ?thesis by simp
  next
    case False
    have "revise_outer xc yc xs ys acc = Inr (acc @ filter (supported xc yc ys) xs)"
      using Cons.prems by (intro Cons.IH) auto
    with False i show ?thesis by simp
  qed
qed

lemma revise_ok_pairwise:
  assumes ov: "overlaps cw x y = Some (ix, iy)"
    and x: "map_of D x = Some xs" and y: "map_of D y = Some ys"
    and d: "distinct xs"
    and rg: "\<forall>xw \<in> set xs. \<forall>yw \<in> set ys. xw = yw \<or> (ix < length xw \<and> iy < length yw)"
  shows "revise cw D x y =
    Inr (length (filter (supported ix iy ys) xs) < length xs,
         AList.update x (filter (supported ix iy ys) xs) D)"
proof (cases "xs = []")
  case True
  with ov x show ?thesis by (simp add: revise_def)
next
  case False
  have "revise_outer ix iy xs ys [] = Inr ([] @ filter (supported ix iy ys) xs)"
    using rg d by (intro revise_outer_ok) auto
  with False ov x y show ?thesis by (simp add: revise_def)
qed

lemma revise_ok:
  assumes ov: "overlaps cw x y = Some (ix, iy)"
    and x: "map_of D x = Some xs" and y: "map_of D y = Some ys"
    and d: "distinct xs"
    and rx: "\<forall>w \<in> set xs. ix < length w" and ry: "\<forall>w \<in> set ys. iy < length w"
  shows "revise cw D x y =
    Inr (length (filter (supported ix iy ys) xs) < length xs,
         AList.update x (filter (supported ix iy ys) xs) D)"
  using rx ry by (intro revise_ok_pairwise[OF ov x y d]) blast

lemma filter_shrinks:
  "distinct xs \<Longrightarrow> (length (filter P xs) < length xs) = (set (filter P xs) \<subset> set xs)"
proof -
  assume d: "distinct xs"
  have "(length (filter P xs) < length xs) = (\<exists>x \<in> set xs. \<not> P x)"
    by (metis filter_True length_filter_le length_filter_less nat_less_le)
  also have "\<dots> = (set (filter P xs) \<subset> set xs)" by auto
  finally show ?thesis .
qed

lemma map_of_update_other: "z \<noteq> x \<Longrightarrow> map_of (AList.update x v D) z = map_of D z"
  by (simp add: update_conv')

section \<open>The contract of revise\<close>

text \<open>
  Claim C3. Without an overlap between \<open>x\<close> and \<open>y\<close>, \<^verbatim>\<open>revise(x, y)\<close> changes nothing
  and returns \<^verbatim>\<open>False\<close>. With overlap indices \<open>(ix, iy)\<close> it replaces the domain of
  \<open>x\<close> by exactly the words \<open>wx\<close> of the old domain for which the domain of \<open>y\<close>
  holds a word \<open>wy \<noteq> wx\<close> with \<open>wx[ix] = wy[iy]\<close>, leaves every other domain (that of
  \<open>y\<close> too) and the key order as they were, and returns \<^verbatim>\<open>True\<close> exactly when the
  domain of \<open>x\<close> lost a word. The stored words are long enough for the indices (as
  they are once node consistency holds); a shorter word makes the code raise
  \<^verbatim>\<open>IndexError\<close>.
\<close>

theorem revise_contract:
  "(overlaps cw x y = None \<longrightarrow> revise cw D x y = Inr (False, D)) \<and>
   (\<forall>ix iy xWords yWords.
      overlaps cw x y = Some (ix, iy) \<and> map_of D x = Some xWords \<and> map_of D y = Some yWords
        \<and> distinct xWords
        \<and> (\<forall>w \<in> set xWords. ix < length w) \<and> (\<forall>w \<in> set yWords. iy < length w) \<longrightarrow>
      (\<exists>D'. revise cw D x y = Inr (set (domain_of D' x) \<subset> set xWords, D')
          \<and> set (domain_of D' x) =
              {wx \<in> set xWords. \<exists>wy \<in> set yWords. wx \<noteq> wy \<and> wx ! ix = wy ! iy}
          \<and> (\<forall>z. z \<noteq> x \<longrightarrow> map_of D' z = map_of D z)
          \<and> map fst D' = map fst D))"
proof (intro conjI allI impI)
  assume "overlaps cw x y = None"
  then show "revise cw D x y = Inr (False, D)" by (simp add: revise_def)
next
  fix ix iy xWords yWords
  assume h: "overlaps cw x y = Some (ix, iy) \<and> map_of D x = Some xWords \<and> map_of D y = Some yWords
        \<and> distinct xWords
        \<and> (\<forall>w \<in> set xWords. ix < length w) \<and> (\<forall>w \<in> set yWords. iy < length w)"
  let ?new = "filter (supported ix iy yWords) xWords"
  let ?D' = "AList.update x ?new D"
  from h have r: "revise cw D x y = Inr (length ?new < length xWords, ?D')"
    by (intro revise_ok) auto
  have dom: "domain_of ?D' x = ?new" by (simp add: domain_of_def update_conv')
  have "revise cw D x y = Inr (set (domain_of ?D' x) \<subset> set xWords, ?D')"
    using r h filter_shrinks[of xWords "supported ix iy yWords"] by (simp add: dom)
  moreover have "set (domain_of ?D' x) =
      {wx \<in> set xWords. \<exists>wy \<in> set yWords. wx \<noteq> wy \<and> wx ! ix = wy ! iy}"
    by (auto simp: dom supported_def)
  moreover have "\<forall>z. z \<noteq> x \<longrightarrow> map_of ?D' z = map_of D z"
    by (simp add: map_of_update_other)
  moreover have "map fst ?D' = map fst D" using h by (auto intro: map_fst_update_present)
  ultimately show "\<exists>D'. revise cw D x y = Inr (set (domain_of D' x) \<subset> set xWords, D')
          \<and> set (domain_of D' x) =
              {wx \<in> set xWords. \<exists>wy \<in> set yWords. wx \<noteq> wy \<and> wx ! ix = wy ! iy}
          \<and> (\<forall>z. z \<noteq> x \<longrightarrow> map_of D' z = map_of D z)
          \<and> map fst D' = map fst D"
    by blast
qed

theorem revise_contract_witness:
  "\<exists>D'. revise two_slots (init_domains two_slots) slotA slotB = Inr (True, D')
      \<and> set (domain_of D' slotA) = {''CAT'', ''TAP''}
      \<and> map_of D' slotB = Some [''CAT'', ''DOG'', ''TAP'', ''ART'']"
proof -
  let ?ws = "[''CAT'', ''DOG'', ''TAP'', ''ART'']"
  have h: "overlaps two_slots slotA slotB = Some (1, 0)
      \<and> map_of (init_domains two_slots) slotA = Some ?ws
      \<and> map_of (init_domains two_slots) slotB = Some ?ws
      \<and> distinct ?ws \<and> (\<forall>w \<in> set ?ws. 1 < length w) \<and> (\<forall>w \<in> set ?ws. 0 < length w)"
    by (simp add: two_slots_def init_domains_def slotA_def slotB_def)
  have ne: "slotB \<noteq> slotA" by (simp add: slotA_def slotB_def)
  from revise_contract[of two_slots slotA slotB "init_domains two_slots",
      THEN conjunct2, rule_format, OF h]
  obtain D' where
    r: "revise two_slots (init_domains two_slots) slotA slotB =
          Inr (set (domain_of D' slotA) \<subset> set ?ws, D')"
    and s: "set (domain_of D' slotA) =
          {wx \<in> set ?ws. \<exists>wy \<in> set ?ws. wx \<noteq> wy \<and> wx ! 1 = wy ! 0}"
    and o: "\<forall>z. z \<noteq> slotA \<longrightarrow> map_of D' z = map_of (init_domains two_slots) z"
    by blast
  have f: "filter (\<lambda>wx. list_ex (\<lambda>wy. wx \<noteq> wy \<and> wx ! 1 = wy ! 0) ?ws) ?ws = [''CAT'', ''TAP'']"
    by code_simp
  have "{wx \<in> set ?ws. \<exists>wy \<in> set ?ws. wx \<noteq> wy \<and> wx ! 1 = wy ! 0} =
      set (filter (\<lambda>wx. list_ex (\<lambda>wy. wx \<noteq> wy \<and> wx ! 1 = wy ! 0) ?ws) ?ws)"
    unfolding list_ex_iff set_filter ..
  with s f have s': "set (domain_of D' slotA) = {''CAT'', ''TAP''}" by simp
  have sub: "{''CAT'', ''TAP''} \<subset> set ?ws" by code_simp
  have b: "map_of D' slotB = Some ?ws" using o ne h by simp
  from r s' sub b show ?thesis by simp
qed

section \<open>Domains only shrink; the length invariant\<close>

lemma narrows_refl: "narrows D D"
  by (simp add: narrows_def)

lemma narrows_trans: "narrows D D' \<Longrightarrow> narrows D' D'' \<Longrightarrow> narrows D D''"
  by (auto simp: narrows_def)

lemma narrows_node_consistent: "narrows D D' \<Longrightarrow> node_consistent D \<Longrightarrow> node_consistent D'"
  by (auto simp: narrows_def node_consistent_def)

lemma narrows_update:
  "map_of D x = Some xs \<Longrightarrow> set new \<subseteq> set xs \<Longrightarrow> narrows D (AList.update x new D)"
  by (auto simp: narrows_def domain_of_def update_conv' map_fst_update_present)

lemma revise_inner_subset:
  "revise_inner xc yc xw ys acc = Inr r \<Longrightarrow> set r \<subseteq> insert xw (set acc)"
  by (drule revise_inner_Inr) (auto simp: set_add_def split: if_splits)

lemma revise_outer_subset:
  "revise_outer xc yc xs ys acc = Inr r \<Longrightarrow> set r \<subseteq> set acc \<union> set xs"
proof (induction xs arbitrary: acc)
  case Nil
  then show ?case by simp
next
  case (Cons xw xs)
  then obtain a where a: "revise_inner xc yc xw ys acc = Inr a"
    and r: "revise_outer xc yc xs ys a = Inr r"
    by (auto split: sum.splits)
  from revise_inner_subset[OF a] Cons.IH[OF r] show ?case by auto
qed

lemma revise_narrows:
  assumes rv: "revise cw D x y = Inr (b, D')"
  shows "narrows D D'"
proof (cases "overlaps cw x y")
  case None
  with rv show ?thesis by (auto simp: revise_def narrows_refl)
next
  case (Some c)
  obtain xc yc where c: "c = (xc, yc)" by (cases c)
  from rv Some c obtain xs where xs: "map_of D x = Some xs"
    by (auto simp: revise_def split: option.splits)
  show ?thesis
  proof (cases "xs = []")
    case True
    with rv Some c xs show ?thesis
      by (auto simp: revise_def intro: narrows_update)
  next
    case False
    with rv Some c xs obtain ys new where
      new: "revise_outer xc yc xs ys [] = Inr new" and D': "D' = AList.update x new D"
      by (auto simp: revise_def split: option.splits sum.splits)
    from revise_outer_subset[OF new] xs D' show ?thesis
      by (auto intro: narrows_update)
  qed
qed

lemma ac3_loop_narrows:
  "ac3_loop cw q D = Inr (b, D') \<Longrightarrow> narrows D D'"
proof (induction cw q D rule: ac3_loop.induct)
  case (1 cw D)
  then show ?case by (simp add: narrows_refl)
next
  case (2 cw x y arc_queue D)
  from "2.prems" obtain r D1 where rv: "revise cw D x y = Inr (r, D1)"
    by (auto split: sum.splits)
  note n = revise_narrows[OF rv]
  show ?case
  proof (cases r)
    case True
    with "2.prems" rv obtain ws where ws: "map_of D1 x = Some ws"
      by (auto split: option.splits)
    show ?thesis
    proof (cases "length ws = 0")
      case True
      with "2.prems" rv ws \<open>r\<close> n show ?thesis by auto
    next
      case False
      with "2.prems" rv ws \<open>r\<close> have "ac3_loop cw (rev (requeue cw x y) @ arc_queue) D1 = Inr (b, D')"
        by auto
      from "2.IH"(1)[OF rv refl \<open>r\<close> ws False this] n show ?thesis by (rule narrows_trans[rotated])
    qed
  next
    case False
    with "2.prems" rv have "ac3_loop cw arc_queue D1 = Inr (b, D')" by auto
    from "2.IH"(2)[OF rv refl False this] n show ?thesis by (rule narrows_trans[rotated])
  qed
qed

lemma ac3_narrows: "ac3 cw arcs D = Inr (b, D') \<Longrightarrow> narrows D D'"
  by (auto simp: ac3_def dest: ac3_loop_narrows)

lemma consistent_narrows: "consistent cw a D = Inr (b, D') \<Longrightarrow> narrows D D'"
  by (auto simp: consistent_def split: sum.splits if_splits prod.splits dest: ac3_narrows)

lemma order_domain_values_set:
  "order_domain_values cw D var a = Inr vals \<Longrightarrow>
   \<exists>values. map_of D var = Some values \<and> set vals = set values
      \<and> length vals = length values \<and> distinct vals = distinct values"
  by (auto simp: order_domain_values_def Let_def split: option.splits sum.splits)

lemma backtrack_narrows:
  "backtrack cw a D = Inr (r, a', D') \<Longrightarrow> narrows D D'"
  "backtrack_loop cw var vals a D = Inr (r, a', D') \<Longrightarrow> narrows D D'"
proof (induction cw a D and cw var vals a D arbitrary: r a' D' and r a' D'
    rule: backtrack_backtrack_loop.induct)
  case (1 cw a D)
  show ?case
  proof (cases "assignment_complete a D")
    case True
    with "1.prems" show ?thesis by (simp add: narrows_refl)
  next
    case False
    with "1.prems" obtain var vals where
      sel: "select_unassigned_variable cw D a = Inr (Some var)"
      and ord: "order_domain_values cw D var a = Inr vals"
      and lp: "backtrack_loop cw var vals a D = Inr (r, a', D')"
      by (auto split: sum.splits option.splits)
    from "1.IH"[OF False sel refl ord lp] show ?thesis .
  qed
next
  case (2 cw unassigned_var a D)
  then show ?case by (simp add: narrows_refl)
next
  case (3 cw var "value" rest a D)
  from "3.prems" obtain c D1 vals' where
    con: "consistent cw a D = Inr (c, D1)"
    and ord: "order_domain_values cw D1 var a = Inr vals'"
    by (auto split: sum.splits)
  note n1 = consistent_narrows[OF con]
  from order_domain_values_set[OF ord] obtain ws where
    ws: "map_of D1 var = Some ws" and ms: "set vals' = set ws" by blast
  show ?case
  proof (cases "value \<in> set vals'")
    case False
    with "3.prems" con ord have "backtrack_loop cw var rest a D1 = Inr (r, a', D')" by simp
    from "3.IH"(3)[OF con refl ord False this] n1 show ?thesis by (rule narrows_trans[rotated])
  next
    case True
    let ?a1 = "AList.update var value a" and ?D1 = "AList.update var [value] D1"
    from True ms have "value \<in> set ws" by simp
    with ws have n2: "narrows D1 ?D1" by (intro narrows_update) auto
    from "3.prems" con ord True obtain r2 a2 D2 where
      bt: "backtrack cw ?a1 ?D1 = Inr (r2, a2, D2)"
      by (auto split: sum.splits)
    note n3 = "3.IH"(1)[OF con refl ord True bt]
    have n123: "narrows D D2" using n1 n2 n3 by (blast intro: narrows_trans)
    show ?thesis
    proof (cases r2)
      case (Some res')
      with "3.prems" con ord True bt have "D' = D2" by auto
      with n123 show ?thesis by simp
    next
      case None
      with "3.prems" con ord True bt have mem: "var \<in> set (map fst a2)"
        and lp: "backtrack_loop cw var rest (AList.delete var a2) D2 = Inr (r, a', D')"
        by (auto split: if_splits)
      from "3.IH"(2)[OF con refl ord True bt refl None refl mem lp] n123
      show ?thesis by (rule narrows_trans[rotated])
    qed
  qed
qed

lemma map_of_enforce_node_consistency:
  "map_of (enforce_node_consistency D) v =
   map_option (filter (\<lambda>word. length word = var_length v)) (map_of D v)"
  by (induction D) (auto simp: enforce_node_consistency_def)

lemma map_fst_enforce_node_consistency: "map fst (enforce_node_consistency D) = map fst D"
  by (induction D) (auto simp: enforce_node_consistency_def)

lemma domain_of_enforce_node_consistency:
  "domain_of (enforce_node_consistency D) v =
   filter (\<lambda>word. length word = var_length v) (domain_of D v)"
  by (simp add: domain_of_def map_of_enforce_node_consistency split: option.splits)

lemma node_consistent_enforce: "node_consistent (enforce_node_consistency D)"
  by (simp add: node_consistent_def domain_of_enforce_node_consistency)

lemma map_of_init_domains:
  "map_of (init_domains cw) v = (if v \<in> set (variables cw) then Some (words cw) else None)"
  unfolding init_domains_def by (induction "variables cw" arbitrary: cw) (auto simp: map_of_map_restrict restrict_map_def)

text \<open>
  Claim C9. After \<^verbatim>\<open>enforce_node_consistency\<close> every domain holds exactly the words
  of its former domain (the whole pool, right after construction) whose length is the slot's
  length; and once every word of every domain has its slot's length, this still holds after
  any call of \<^verbatim>\<open>revise\<close>, \<^verbatim>\<open>ac3\<close>, \<^verbatim>\<open>consistent\<close> and \<^verbatim>\<open>backtrack\<close>
  that returns.
\<close>

theorem length_invariant:
  "(\<forall>v \<in> set (variables cw).
      set (domain_of (enforce_node_consistency (init_domains cw)) v) =
        {w \<in> set (words cw). length w = var_length v})
   \<and> (\<forall>v. set (domain_of (enforce_node_consistency D0) v) =
        {w \<in> set (domain_of D0 v). length w = var_length v})
   \<and> node_consistent (enforce_node_consistency D0)
   \<and> (node_consistent D \<longrightarrow>
        (\<forall>x y b D'. revise cw D x y = Inr (b, D') \<longrightarrow> node_consistent D')
      \<and> (\<forall>arcs b D'. ac3 cw arcs D = Inr (b, D') \<longrightarrow> node_consistent D')
      \<and> (\<forall>a b D'. consistent cw a D = Inr (b, D') \<longrightarrow> node_consistent D')
      \<and> (\<forall>a r a' D'. backtrack cw a D = Inr (r, a', D') \<longrightarrow> node_consistent D'))"
proof (intro conjI ballI allI impI)
  fix v assume "v \<in> set (variables cw)"
  then show "set (domain_of (enforce_node_consistency (init_domains cw)) v) =
        {w \<in> set (words cw). length w = var_length v}"
    unfolding domain_of_enforce_node_consistency
    by (simp add: domain_of_def map_of_init_domains)
next
  fix v show "set (domain_of (enforce_node_consistency D0) v) =
        {w \<in> set (domain_of D0 v). length w = var_length v}"
    by (simp add: domain_of_enforce_node_consistency)
next
  show "node_consistent (enforce_node_consistency D0)" by (rule node_consistent_enforce)
next
  fix x y b D' assume "node_consistent D" "revise cw D x y = Inr (b, D')"
  then show "node_consistent D'" by (blast intro: narrows_node_consistent revise_narrows)
next
  fix arcs b D' assume "node_consistent D" "ac3 cw arcs D = Inr (b, D')"
  then show "node_consistent D'" by (blast intro: narrows_node_consistent ac3_narrows)
next
  fix a b D' assume "node_consistent D" "consistent cw a D = Inr (b, D')"
  then show "node_consistent D'" by (blast intro: narrows_node_consistent consistent_narrows)
next
  fix a r a' D' assume "node_consistent D" "backtrack cw a D = Inr (r, a', D')"
  then show "node_consistent D'" by (blast intro: narrows_node_consistent backtrack_narrows(1))
qed

theorem length_invariant_witness:
  "node_consistent (enforce_node_consistency (init_domains two_slots))
   \<and> (\<exists>D'. backtrack two_slots [] (enforce_node_consistency (init_domains two_slots)) =
          Inr (Some [(slotA, ''CAT''), (slotB, ''ART'')], [(slotA, ''CAT''), (slotB, ''ART'')], D')
        \<and> node_consistent D')"
proof -
  let ?D = "enforce_node_consistency (init_domains two_slots)"
  note t = length_invariant[of two_slots "init_domains two_slots" ?D]
  from t have n: "node_consistent ?D" by blast
  have e: "backtrack two_slots [] ?D =
      Inr (Some [(slotA, ''CAT''), (slotB, ''ART'')], [(slotA, ''CAT''), (slotB, ''ART'')],
           [(slotA, [''CAT'']), (slotB, [''ART''])])"
    by code_simp
  from t n e have "node_consistent [(slotA, [''CAT'']), (slotB, [''ART''])]" by blast
  with n e show ?thesis by simp
qed

section \<open>Variable ordering\<close>

lemma select_loop_Some:
  assumes "\<forall>(k, v) \<in> set us. length v = sz k" and "m = sz s"
  shows "\<exists>r. select_loop cw us (Some s) m = Inr (Some r) \<and> r \<in> insert s (fst ` set us)
     \<and> (\<forall>k \<in> insert s (fst ` set us). sz r \<le> sz k
           \<and> (sz k = sz r \<longrightarrow> length (neighbors cw k) \<le> length (neighbors cw r)))"
  using assms
proof (induction us arbitrary: s m)
  case Nil
  then show ?case by simp
next
  case (Cons e us)
  obtain k v where e: "e = (k, v)" by (cases e)
  with Cons.prems have v: "length v = sz k" and rest: "\<forall>(k, v) \<in> set us. length v = sz k"
    by auto
  let ?deg = "\<lambda>x. length (neighbors cw x)"
  consider (less) "sz k < sz s" | (eq) "sz k = sz s" | (more) "sz s < sz k" by linarith
  then show ?case
  proof cases
    case less
    from Cons.IH[OF rest, of "sz k" k] obtain r where
      r: "select_loop cw us (Some k) (sz k) = Inr (Some r)" "r \<in> insert k (fst ` set us)"
        "\<forall>x \<in> insert k (fst ` set us). sz r \<le> sz x \<and> (sz x = sz r \<longrightarrow> ?deg x \<le> ?deg r)"
      by auto
    from r(3) have "sz r \<le> sz k" by simp
    with less r e v Cons.prems(2) show ?thesis by auto
  next
    case eq
    let ?s' = "if ?deg k > ?deg s then k else s"
    have "sz s = sz ?s'" using eq by simp
    from Cons.IH[OF rest this] obtain r where
      r: "select_loop cw us (Some ?s') (sz s) = Inr (Some r)" "r \<in> insert ?s' (fst ` set us)"
        "\<forall>x \<in> insert ?s' (fst ` set us). sz r \<le> sz x \<and> (sz x = sz r \<longrightarrow> ?deg x \<le> ?deg r)"
      by auto
    from r(3) have b: "sz r \<le> sz ?s'" "sz ?s' = sz r \<longrightarrow> ?deg ?s' \<le> ?deg r" by auto
    have sel: "select_loop cw (e # us) (Some s) m = Inr (Some r)"
      using r(1) e v eq Cons.prems(2) by (auto split: if_splits)
    have mem: "r \<in> insert s (fst ` set (e # us))" using r(2) e by (auto split: if_splits)
    have "\<forall>x \<in> insert s (fst ` set (e # us)). sz r \<le> sz x \<and> (sz x = sz r \<longrightarrow> ?deg x \<le> ?deg r)"
    proof
      fix x assume x: "x \<in> insert s (fst ` set (e # us))"
      show "sz r \<le> sz x \<and> (sz x = sz r \<longrightarrow> ?deg x \<le> ?deg r)"
      proof (cases "x = s \<or> x = k")
        case True
        with b eq show ?thesis by (auto split: if_splits)
      next
        case False
        with x e have "x \<in> insert ?s' (fst ` set us)" by auto
        with r(3) show ?thesis by blast
      qed
    qed
    with sel mem show ?thesis by blast
  next
    case more
    from Cons.IH[OF rest Cons.prems(2)] obtain r where
      r: "select_loop cw us (Some s) m = Inr (Some r)" "r \<in> insert s (fst ` set us)"
        "\<forall>x \<in> insert s (fst ` set us). sz r \<le> sz x \<and> (sz x = sz r \<longrightarrow> ?deg x \<le> ?deg r)"
      by auto
    from r(3) have "sz r \<le> sz s" by simp
    with more r e v Cons.prems(2) show ?thesis by auto
  qed
qed

lemma map_of_length_entry:
  "distinct (map fst D) \<Longrightarrow> (k, v) \<in> set D \<Longrightarrow> domain_of D k = v"
  by (simp add: domain_of_def)

text \<open>
  The variable-ordering contract as the code keeps it: with fewer than 10000 words in the
  domain of every unassigned slot, the selected slot is unassigned, has a smallest domain
  among the unassigned slots and, among those of that size, a largest number of neighbours.
\<close>

lemma select_unassigned_variable_mrv:
  assumes d: "distinct (map fst D)"
    and ex: "unassigned D a \<noteq> []"
    and small: "\<forall>(k, v) \<in> set (unassigned D a). length v < 10000"
  shows "\<exists>r. select_unassigned_variable cw D a = Inr (Some r)
     \<and> r \<in> fst ` set D \<and> r \<notin> fst ` set a
     \<and> (\<forall>k \<in> fst ` set D - fst ` set a.
           length (domain_of D r) \<le> length (domain_of D k)
           \<and> (length (domain_of D k) = length (domain_of D r) \<longrightarrow>
                length (neighbors cw k) \<le> length (neighbors cw r)))"
proof -
  let ?sz = "\<lambda>k. length (domain_of D k)"
  from ex obtain k v us where us: "unassigned D a = (k, v) # us"
    by (cases "unassigned D a") auto
  have sub: "set (unassigned D a) \<subseteq> set D" by (auto simp: unassigned_def)
  have keys: "fst ` set (unassigned D a) = fst ` set D - fst ` set a"
    by (force simp: unassigned_def)
  have szs: "\<forall>(k, v) \<in> set (unassigned D a). length v = ?sz k"
    using sub d by (auto simp: map_of_length_entry)
  with us have v: "length v = ?sz k" and rest: "\<forall>(k, v) \<in> set us. length v = ?sz k" by auto
  from small us have lt: "length v < 10000" by auto
  from select_loop_Some[OF rest, of "?sz k" k cw] obtain r where
    r: "select_loop cw us (Some k) (?sz k) = Inr (Some r)" "r \<in> insert k (fst ` set us)"
       "\<forall>x \<in> insert k (fst ` set us). ?sz r \<le> ?sz x
           \<and> (?sz x = ?sz r \<longrightarrow> length (neighbors cw x) \<le> length (neighbors cw r))"
    by auto
  have "select_unassigned_variable cw D a = Inr (Some r)"
    using r(1) us lt v by (simp add: select_unassigned_variable_def)
  moreover have ins: "insert k (fst ` set us) = fst ` set D - fst ` set a"
    using keys us by simp
  ultimately show ?thesis using r(2,3) by auto
qed

lemma length_concat_const:
  "(\<And>a. length (f a) = n) \<Longrightarrow> length (concat (map f xs)) = length xs * n"
  by (induction xs) auto

lemma length_all3: "length all3 = 17576"
proof -
  have l: "length letters = 26" by (simp add: letters_def)
  have 1: "length (map (\<lambda>c. [a, b, c]) letters) = 26" for a b :: char by (simp add: l)
  have 2: "length (concat (map (\<lambda>b. map (\<lambda>c. [a, b, c]) letters) letters)) = 26 * 26" for a :: char
    using length_concat_const[of "\<lambda>b. map (\<lambda>c. [a, b, c]) letters" 26 letters] 1 l by simp
  show ?thesis
    unfolding all3_def
    using length_concat_const[of "\<lambda>a. concat (map (\<lambda>b. map (\<lambda>c. [a, b, c]) letters) letters)" "26 * 26" letters] 2 l
    by simp
qed

lemma all3_lengths: "\<forall>w \<in> set all3. length w = 3"
  by (auto simp: all3_def)

lemma one_slot_domains:
  "enforce_node_consistency (init_domains one_slot) = [(lone_slot, all3)]"
  using all3_lengths
  by (simp add: enforce_node_consistency_def init_domains_def one_slot_def lone_slot_def)

text \<open>
  Claim C7, at a pool of more than 10000 words of the slot's length: the one unassigned slot
  is not selected (the initial bound \<^verbatim>\<open>min_val_size = 10000\<close> is never beaten), the
  result is \<^verbatim>\<open>None\<close>, and \<^verbatim>\<open>solve\<close> fails with an exception where the puzzle has
  17576 solutions.
\<close>

theorem select_unassigned_variable_large_domain:
  "select_unassigned_variable one_slot (enforce_node_consistency (init_domains one_slot)) [] = Inr None
   \<and> unassigned (enforce_node_consistency (init_domains one_slot)) [] \<noteq> []
   \<and> solve one_slot = Inl KeyError"
proof -
  have s: "select_unassigned_variable one_slot [(lone_slot, all3)] [] = Inr None"
    by (simp add: select_unassigned_variable_def unassigned_def length_all3)
  have a: "ac3 one_slot None [(lone_slot, all3)] = Inr (True, [(lone_slot, all3)])"
    by (simp add: ac3_def all_arcs_def neighbors_def one_slot_def)
  have "backtrack one_slot [] [(lone_slot, all3)] = Inl KeyError"
    by (simp add: s assignment_complete_def)
  then have "solve one_slot = Inl KeyError"
    by (simp add: solve_def solve_state_def one_slot_domains a)
  with s show ?thesis by (simp add: one_slot_domains unassigned_def)
qed

section \<open>Value ordering\<close>

lemma count_values_ok:
  "c0 < length v \<Longrightarrow> \<forall>nv \<in> set nvs. c1 < length nv \<Longrightarrow>
   count_values (Some (c0, c1)) v nvs cnt = Inr (cnt + length (filter (\<lambda>nv. v ! c0 = nv ! c1) nvs))"
  by (induction nvs arbitrary: cnt) (auto simp: char_at_def)

lemma count_neighbors_ok:
  assumes "\<forall>n \<in> set ns. map_of D n \<noteq> None \<and>
       (case overlaps cw var n of None \<Rightarrow> False
        | Some (i, j) \<Rightarrow> i < length v \<and> (\<forall>w' \<in> set (domain_of D n). j < length w'))"
  shows "count_neighbors cw D var v ns cnt =
     Inr (cnt + sum_list (map (\<lambda>n. length (filter (crossing_match cw var v n) (domain_of D n))) ns))"
  using assms
proof (induction ns arbitrary: cnt)
  case Nil
  then show ?case by simp
next
  case (Cons n ns)
  from Cons.prems obtain nvs i j where nvs: "map_of D n = Some nvs"
    and ov: "overlaps cw var n = Some (i, j)" and i: "i < length v"
    and j: "\<forall>w' \<in> set nvs. j < length w'"
    by (auto simp: domain_of_def split: option.splits)
  have cm: "crossing_match cw var v n = (\<lambda>nv. v ! i = nv ! j)"
    by (simp add: crossing_match_def ov fun_eq_iff)
  have ih: "count_neighbors cw D var v ns c =
     Inr (c + sum_list (map (\<lambda>n. length (filter (crossing_match cw var v n) (domain_of D n))) ns))" for c
    using Cons.prems by (intro Cons.IH) simp
  show ?case
    by (simp add: nvs ov count_values_ok[OF i j] ih cm domain_of_def)
qed

lemma constr_num_ok:
  assumes "\<forall>v \<in> set vs. count_neighbors cw D var v ns 0 = Inr (f v)"
  shows "\<exists>d. constr_num cw D var ns vs d0 = Inr d \<and>
     (\<forall>v. map_of d v = (if v \<in> set vs then Some (f v) else map_of d0 v))"
  using assms
proof (induction vs arbitrary: d0)
  case Nil
  then show ?case by simp
next
  case (Cons v vs)
  from Cons.IH[of "AList.update v (f v) d0"] Cons.prems obtain d where
    d: "constr_num cw D var ns vs (AList.update v (f v) d0) = Inr d"
    "\<forall>x. map_of d x = (if x \<in> set vs then Some (f x) else map_of (AList.update v (f v) d0) x)"
    by auto
  from d Cons.prems show ?case by (auto simp: update_conv')
qed

lemma card_pairs_sum_list:
  assumes "distinct ns" and "\<forall>n \<in> set ns. distinct (dm n)"
  shows "card {(n, w'). n \<in> set ns \<and> w' \<in> set (dm n) \<and> P n w'} =
     sum_list (map (\<lambda>n. length (filter (P n) (dm n))) ns)"
proof -
  have "{(n, w'). n \<in> set ns \<and> w' \<in> set (dm n) \<and> P n w'} =
      (SIGMA n : set ns. set (filter (P n) (dm n)))"
    by auto
  then have "card {(n, w'). n \<in> set ns \<and> w' \<in> set (dm n) \<and> P n w'} =
      (\<Sum>n \<in> set ns. card (set (filter (P n) (dm n))))"
    by (simp add: card_SigmaI)
  also have "\<dots> = (\<Sum>n \<in> set ns. length (filter (P n) (dm n)))"
  proof (rule sum.cong)
    fix n assume "n \<in> set ns"
    with assms(2) have "distinct (filter (P n) (dm n))" by simp
    then show "card (set (filter (P n) (dm n))) = length (filter (P n) (dm n))"
      by (rule distinct_card)
  qed simp
  also have "\<dots> = sum_list (map (\<lambda>n. length (filter (P n) (dm n))) ns)"
    using assms(1) by (simp add: sum_list_distinct_conv_sum_set)
  finally show ?thesis .
qed

lemma insort_key_agree:
  "f x = g x \<Longrightarrow> \<forall>y \<in> set ys. f y = g y \<Longrightarrow> insort_key f x ys = insort_key g x ys"
  by (induction ys) auto

lemma sort_key_agree:
  "\<forall>x \<in> set xs. f x = g x \<Longrightarrow> sort_key f xs = sort_key g xs"
proof (induction xs)
  case Nil
  then show ?case by simp
next
  case (Cons x xs)
  then have "sort_key f xs = sort_key g xs" by simp
  moreover have "insort_key f x (sort_key g xs) = insort_key g x (sort_key g xs)"
    using Cons.prems by (intro insort_key_agree) auto
  ultimately show ?case by (simp add: sort_key_def)
qed

lemma order_domain_values_ok:
  assumes rdy: "ordering_ready cw D a var"
  shows "\<exists>vals. order_domain_values cw D var a = Inr vals
     \<and> vals = sort_key (score cw D a var) (domain_of D var)"
proof -
  let ?ns = "filter (\<lambda>v. v \<notin> set (map fst a)) (neighbors cw var)"
  let ?f = "\<lambda>v. sum_list (map (\<lambda>n. length (filter (crossing_match cw var v n) (domain_of D n))) ?ns)"
  from rdy obtain vs0 where vs0: "map_of D var = Some vs0"
    by (auto simp: ordering_ready_def)
  then have dv: "domain_of D var = vs0" by (simp add: domain_of_def)
  have dns: "distinct ?ns" using rdy by (simp add: ordering_ready_def neighbors_def)
  have cnt: "count_neighbors cw D var v ?ns 0 = Inr (?f v)" if "v \<in> set vs0" for v
  proof -
    have "count_neighbors cw D var v ?ns 0 = Inr (0 + ?f v)"
      using rdy that dv
      by (intro count_neighbors_ok) (auto simp: ordering_ready_def split: option.splits)
    then show ?thesis by simp
  qed
  have sc: "score cw D a var v = ?f v" for v
  proof -
    have "{(n, w'). n \<in> set (neighbors cw var) \<and> n \<notin> fst ` set a
             \<and> w' \<in> set (domain_of D n) \<and> crossing_match cw var v n w'} =
          {(n, w'). n \<in> set ?ns \<and> w' \<in> set (domain_of D n) \<and> crossing_match cw var v n w'}"
      by auto
    moreover have "\<forall>n \<in> set ?ns. distinct (domain_of D n)"
      using rdy by (auto simp: ordering_ready_def)
    ultimately show ?thesis
      unfolding score_def using card_pairs_sum_list[OF dns, of "domain_of D" "crossing_match cw var v"]
      by simp
  qed
  from constr_num_ok[of vs0 cw D var ?ns ?f "[]"] cnt obtain d where
    d: "constr_num cw D var ?ns vs0 [] = Inr d"
    and m: "\<forall>v. map_of d v = (if v \<in> set vs0 then Some (?f v) else map_of [] v)"
    by blast
  have "sort_key (\<lambda>x. the (map_of d x)) vs0 = sort_key (score cw D a var) vs0"
    using m sc by (intro sort_key_agree) simp
  with d vs0 dv show ?thesis
    by (simp add: order_domain_values_def Let_def)
qed

text \<open>
  Claim C8. \<^verbatim>\<open>order_domain_values(var, assignment)\<close> returns the words of the domain of
  \<open>var\<close>, each once, in ascending order of \<open>score\<close>: the number of pairs of a neighbour
  of \<open>var\<close> outside the assignment and a word of that neighbour's domain that agrees with
  the word at the crossing. The store is one the loops can index: the unassigned neighbours
  are keys of it, their overlap with \<open>var\<close> is defined, and the words reach the overlap
  indices.
\<close>

theorem order_domain_values_contract:
  assumes "ordering_ready cw D a var"
  shows "\<exists>vals. order_domain_values cw D var a = Inr vals
     \<and> set vals = set (domain_of D var) \<and> length vals = length (domain_of D var)
     \<and> distinct vals = distinct (domain_of D var)
     \<and> sorted (map (score cw D a var) vals)"
proof -
  from order_domain_values_ok[OF assms] obtain vals where
    v: "order_domain_values cw D var a = Inr vals"
       "vals = sort_key (score cw D a var) (domain_of D var)"
    by blast
  from v(2) have "set vals = set (domain_of D var)" "length vals = length (domain_of D var)"
    "distinct vals = distinct (domain_of D var)" "sorted (map (score cw D a var) vals)"
    by simp_all
  with v(1) show ?thesis by blast
qed

theorem order_domain_values_contract_witness:
  "order_domain_values two_slots (init_domains two_slots) slotA [] =
     Inr [''DOG'', ''ART'', ''CAT'', ''TAP'']
   \<and> sorted (map (score two_slots (init_domains two_slots) [] slotA)
        [''DOG'', ''ART'', ''CAT'', ''TAP''])"
proof -
  have r: "ordering_ready two_slots (init_domains two_slots) [] slotA"
    by code_simp
  have e: "order_domain_values two_slots (init_domains two_slots) slotA [] =
     Inr [''DOG'', ''ART'', ''CAT'', ''TAP'']"
    by code_simp
  from order_domain_values_contract[OF r] e show ?thesis by auto
qed

section \<open>The fixed point of AC-3\<close>

lemma domain_of_update:
  "domain_of (AList.update x new D) z = (if z = x then new else domain_of D z)"
  by (simp add: domain_of_def update_conv')

lemma arc_test_Inr_range:
  "arc_test xc yc xw yw = Inr b \<Longrightarrow> xw = yw \<or> (xc < length xw \<and> yc < length yw)"
  by (auto simp: arc_test_def char_at_def split: if_splits)

lemma revise_inner_Inr_range:
  "revise_inner xc yc xw ys acc = Inr r \<Longrightarrow>
   \<forall>yw \<in> set ys. xw = yw \<or> (xc < length xw \<and> yc < length yw)"
  by (induction ys arbitrary: acc) (auto split: sum.splits dest: arc_test_Inr_range)

lemma set_add_set: "set (set_add x xs) = insert x (set xs)"
  by (auto simp: set_add_def)

lemma set_add_distinct: "distinct xs \<Longrightarrow> distinct (set_add x xs)"
  by (auto simp: set_add_def)

lemma revise_outer_Inr:
  "revise_outer xc yc xs ys acc = Inr r \<Longrightarrow>
   set r = set acc \<union> {w \<in> set xs. supported xc yc ys w}
   \<and> (distinct acc \<longrightarrow> distinct r)
   \<and> (\<forall>xw \<in> set xs. \<forall>yw \<in> set ys. xw = yw \<or> (xc < length xw \<and> yc < length yw))"
proof (induction xs arbitrary: acc)
  case Nil
  then show ?case by simp
next
  case (Cons xw xs)
  then obtain a where a: "revise_inner xc yc xw ys acc = Inr a"
    and r: "revise_outer xc yc xs ys a = Inr r"
    by (auto split: sum.splits)
  from revise_inner_Inr[OF a] have a': "a = (if supported xc yc ys xw then set_add xw acc else acc)" .
  note rg = revise_inner_Inr_range[OF a]
  note ih = Cons.IH[OF r]
  have 1: "set r = set acc \<union> {w \<in> set (xw # xs). supported xc yc ys w}"
    using ih a' by (auto simp: set_add_set)
  have 2: "distinct acc \<longrightarrow> distinct r"
    using ih a' by (auto simp: set_add_distinct)
  have 3: "\<forall>x \<in> set (xw # xs). \<forall>yw \<in> set ys. x = yw \<or> (xc < length x \<and> yc < length yw)"
    using ih rg by auto
  from 1 2 3 show ?case by blast
qed

lemma revise_Inr:
  assumes rv: "revise cw D x y = Inr (b, D')" and ov: "overlaps cw x y = Some (i, j)"
  shows "\<exists>xs new. map_of D x = Some xs \<and> D' = AList.update x new D
     \<and> set new = {w \<in> set xs. supported i j (domain_of D y) w}
     \<and> distinct new \<and> b = (length new < length xs)
     \<and> arc_safe cw D x y"
proof -
  from rv ov obtain xs where xs: "map_of D x = Some xs"
    by (auto simp: revise_def split: option.splits)
  then have dx: "domain_of D x = xs" by (simp add: domain_of_def)
  show ?thesis
  proof (cases "xs = []")
    case True
    with rv ov xs have "D' = AList.update x [] D" "b = False" by (auto simp: revise_def)
    with xs True dx ov show ?thesis by (auto simp: arc_safe_def)
  next
    case False
    with rv ov xs obtain ys new where ys: "map_of D y = Some ys"
      and new: "revise_outer i j xs ys [] = Inr new"
      and b: "b = (length new < length xs)" and D': "D' = AList.update x new D"
      by (auto simp: revise_def split: option.splits sum.splits)
    from ys have dy: "domain_of D y = ys" by (simp add: domain_of_def)
    from revise_outer_Inr[OF new] xs b D' dx dy ov show ?thesis
      by (auto simp: arc_safe_def)
  qed
qed

lemma revise_unrevised_set:
  assumes "set new \<subseteq> set xs" and "distinct new" and "\<not> length new < length xs"
  shows "set new = set xs"
proof -
  have "card (set xs) \<le> length xs" by (rule card_length)
  also have "\<dots> \<le> length new" using assms(3) by simp
  also have "\<dots> = card (set new)" using assms(2) by (simp add: distinct_card)
  finally have "card (set xs) \<le> card (set new)" .
  with assms(1) show ?thesis by (simp add: card_seteq)
qed

lemma symmetric_overlapsD:
  "symmetric_overlaps cw \<Longrightarrow> x \<in> set (variables cw) \<Longrightarrow> y \<in> set (variables cw) \<Longrightarrow>
   overlaps cw x y = Some (i, j) \<Longrightarrow> overlaps cw y x = Some (j, i)"
  unfolding symmetric_overlaps_def by fastforce

lemma arc_settled_mono:
  assumes "set (domain_of D1 u) \<subseteq> set (domain_of D u)"
    and "set (domain_of D1 v) = set (domain_of D v)"
    and "arc_settled cw D u v"
  shows "arc_settled cw D1 u v"
  using assms
  by (auto simp: arc_settled_def arc_consistent_def arc_safe_def supported_def split: option.splits)

lemma requeue_mem: "u \<in> set (neighbors cw x) \<Longrightarrow> u \<noteq> y \<Longrightarrow> (u, x) \<in> set (requeue cw x y)"
  by (auto simp: requeue_def)

lemma revise_step_settled:
  assumes sym: "symmetric_overlaps cw"
    and rv: "revise cw D x y = Inr (r, D1)"
    and A: "\<forall>(u, v) \<in> A. u \<in> set (neighbors cw v) \<and> v \<in> set (variables cw)"
    and uv: "(u, v) \<in> A"
    and prev: "(u, v) = (x, y) \<or> arc_settled cw D u v"
  shows "arc_settled cw D1 u v \<or> (r \<and> (u, v) \<in> set (requeue cw x y))"
proof (cases "overlaps cw x y")
  case None
  with rv have "D1 = D" by (simp add: revise_def)
  with prev None show ?thesis
    by (auto simp: arc_settled_def arc_consistent_def arc_safe_def)
next
  case (Some c)
  obtain i j where c: "c = (i, j)" by (cases c)
  from A uv have nb: "u \<in> set (neighbors cw v)" and vv: "v \<in> set (variables cw)" by auto
  then have ne: "u \<noteq> v" and uvars: "u \<in> set (variables cw)" by (auto simp: neighbors_def)
  from revise_Inr[OF rv Some[unfolded c]] obtain xs new where
    xs: "map_of D x = Some xs" and D1: "D1 = AList.update x new D"
    and new: "set new = {w \<in> set xs. supported i j (domain_of D y) w}"
    and dn: "distinct new" and r: "r = (length new < length xs)"
    and safe: "arc_safe cw D x y"
    by blast
  from xs have dx: "domain_of D x = xs" by (simp add: domain_of_def)
  have d1: "domain_of D1 z = (if z = x then new else domain_of D z)" for z
    by (simp add: D1 domain_of_update)
  have sub: "set new \<subseteq> set xs" using new by auto
  show ?thesis
  proof (cases "(u, v) = (x, y)")
    case True
    then have "x \<noteq> y" using ne by simp
    with True new safe sub dx Some c show ?thesis
      by (auto simp: arc_settled_def arc_consistent_def arc_safe_def d1)
  next
    case False
    with prev have st: "arc_settled cw D u v" by blast
    show ?thesis
    proof (cases "v = x")
      case False
      have "arc_settled cw D1 u v"
        using False sub dx by (intro arc_settled_mono[OF _ _ st]) (auto simp: d1)
      then show ?thesis ..
    next
      case vx: True
      with ne have ux: "u \<noteq> x" by simp
      show ?thesis
      proof (cases r)
        case False
        with r sub dn have "set new = set xs" by (intro revise_unrevised_set) auto
        then have "arc_settled cw D1 u v"
          using dx by (intro arc_settled_mono[OF _ _ st]) (auto simp: d1)
        then show ?thesis ..
      next
        case True
        show ?thesis
        proof (cases "u = y")
          case False
          with nb vx have "(u, v) \<in> set (requeue cw x y)" by (simp add: requeue_mem)
          with True show ?thesis by simp
        next
          case uy: True
          have xv: "x \<in> set (variables cw)" using vv vx by simp
          have yv: "y \<in> set (variables cw)" using uvars uy by simp
          have oxy: "overlaps cw x y = Some (i, j)" using Some c by simp
          note ovyx = symmetric_overlapsD[OF sym xv yv oxy]
          have st': "arc_settled cw D y x" using st uy vx by simp
          from st' have cons: "\<forall>w' \<in> set (domain_of D y). supported j i xs w'"
            and sf: "\<forall>w' \<in> set (domain_of D y). \<forall>w \<in> set xs. w' = w \<or> (j < length w' \<and> i < length w)"
            by (simp_all add: arc_settled_def arc_consistent_def arc_safe_def ovyx dx)
          have "\<forall>w' \<in> set (domain_of D y). supported j i new w'"
          proof
            fix w' assume w': "w' \<in> set (domain_of D y)"
            with cons obtain w where w: "w \<in> set xs" "w' \<noteq> w" "w' ! j = w ! i"
              by (auto simp: supported_def)
            with w' have "supported i j (domain_of D y) w"
              by (auto simp: supported_def)
            with w new have "w \<in> set new" by simp
            with w show "supported j i new w'" by (auto simp: supported_def)
          qed
          moreover have "\<forall>w' \<in> set (domain_of D y). \<forall>w \<in> set new. w' = w \<or> (j < length w' \<and> i < length w)"
            using sf sub by blast
          moreover have "y \<noteq> x" using ux uy by simp
          ultimately have "arc_settled cw D1 y x"
            by (simp add: arc_settled_def arc_consistent_def arc_safe_def ovyx d1)
          then have "arc_settled cw D1 u v" using uy vx by simp
          then show ?thesis ..
        qed
      qed
    qed
  qed
qed

lemma ac3_loop_settles:
  "symmetric_overlaps cw \<Longrightarrow>
   \<forall>(u, v) \<in> A. u \<in> set (neighbors cw v) \<and> v \<in> set (variables cw) \<Longrightarrow>
   ac3_loop cw q D = Inr (True, D') \<Longrightarrow>
   \<forall>(u, v) \<in> A. (u, v) \<in> set q \<or> arc_settled cw D u v \<Longrightarrow>
   \<forall>(u, v) \<in> A. arc_settled cw D' u v"
proof (induction cw q D rule: ac3_loop.induct)
  case (1 cw D)
  then show ?case by auto
next
  case (2 cw x y arc_queue D)
  note sym = "2.prems"(1) and A = "2.prems"(2) and res = "2.prems"(3) and inv = "2.prems"(4)
  from res obtain r D1 where rv: "revise cw D x y = Inr (r, D1)"
    by (auto split: sum.splits)
  have step: "arc_settled cw D1 u v \<or> (r \<and> (u, v) \<in> set (requeue cw x y)) \<or> (u, v) \<in> set arc_queue"
    if uv: "(u, v) \<in> A" for u v
  proof (cases "(u, v) \<in> set arc_queue")
    case True
    then show ?thesis by simp
  next
    case False
    with inv uv have "(u, v) = (x, y) \<or> arc_settled cw D u v" by auto
    from revise_step_settled[OF sym rv A uv this] show ?thesis by blast
  qed
  show ?case
  proof (cases r)
    case True
    with res rv obtain ws where ws: "map_of D1 x = Some ws"
      by (auto split: option.splits)
    from res rv True ws have ne: "length ws \<noteq> 0" by (auto split: if_splits)
    with res rv True ws have lp: "ac3_loop cw (rev (requeue cw x y) @ arc_queue) D1 = Inr (True, D')"
      by simp
    have "\<forall>(u, v) \<in> A. (u, v) \<in> set (rev (requeue cw x y) @ arc_queue) \<or> arc_settled cw D1 u v"
      using step by auto
    from "2.IH"(1)[OF rv refl True ws ne sym A lp this] show ?thesis .
  next
    case False
    with res rv have lp: "ac3_loop cw arc_queue D1 = Inr (True, D')" by simp
    have "\<forall>(u, v) \<in> A. (u, v) \<in> set arc_queue \<or> arc_settled cw D1 u v"
      using step False by auto
    from "2.IH"(2)[OF rv refl False sym A lp this] show ?thesis .
  qed
qed

lemma revise_distinct:
  assumes "revise cw D x y = Inr (b, D1)" and "\<forall>z. distinct (domain_of D z)"
  shows "\<forall>z. distinct (domain_of D1 z)"
proof (cases "overlaps cw x y")
  case None
  with assms show ?thesis by (simp add: revise_def)
next
  case (Some c)
  obtain i j where "c = (i, j)" by (cases c)
  with Some have "overlaps cw x y = Some (i, j)" by simp
  from revise_Inr[OF assms(1) this] assms(2) show ?thesis
    by (auto simp: domain_of_update)
qed

lemma ac3_loop_distinct:
  "ac3_loop cw q D = Inr (b, D') \<Longrightarrow> \<forall>z. distinct (domain_of D z) \<Longrightarrow>
   \<forall>z. distinct (domain_of D' z)"
proof (induction cw q D rule: ac3_loop.induct)
  case (1 cw D)
  then show ?case by simp
next
  case (2 cw x y arc_queue D)
  note res = "2.prems"(1)
  from res obtain r D1 where rv: "revise cw D x y = Inr (r, D1)"
    by (auto split: sum.splits)
  note d1 = revise_distinct[OF rv "2.prems"(2)]
  show ?case
  proof (cases r)
    case True
    with res rv obtain ws where ws: "map_of D1 x = Some ws"
      by (auto split: option.splits)
    show ?thesis
    proof (cases "length ws = 0")
      case True
      with res rv ws \<open>r\<close> d1 show ?thesis by auto
    next
      case False
      with res rv ws \<open>r\<close> have "ac3_loop cw (rev (requeue cw x y) @ arc_queue) D1 = Inr (b, D')"
        by auto
      from "2.IH"(1)[OF rv refl \<open>r\<close> ws False this d1] show ?thesis .
    qed
  next
    case False
    with res rv have "ac3_loop cw arc_queue D1 = Inr (b, D')" by auto
    from "2.IH"(2)[OF rv refl False this d1] show ?thesis .
  qed
qed

lemma all_arcs_set:
  "set (all_arcs cw D) = {(x, y). x \<in> fst ` set D \<and> y \<in> set (neighbors cw x)}"
  by (auto simp: all_arcs_def)

lemma neighbors_iff:
  "y \<in> set (neighbors cw x) \<longleftrightarrow> y \<in> set (variables cw) \<and> y \<noteq> x \<and> overlaps cw y x \<noteq> None"
  by (auto simp: neighbors_def)

lemma ac3_settles:
  assumes sym: "symmetric_overlaps cw"
    and keys: "set (map fst D) = set (variables cw)"
    and res: "ac3 cw None D = Inr (True, D')"
    and x: "x \<in> set (variables cw)" and y: "y \<in> set (variables cw)" and ne: "x \<noteq> y"
  shows "arc_settled cw D' x y"
proof (cases "overlaps cw x y")
  case None
  then show ?thesis by (simp add: arc_settled_def arc_consistent_def arc_safe_def)
next
  case (Some c)
  obtain i j where c: "c = (i, j)" by (cases c)
  let ?A = "set (all_arcs cw D)"
  have A: "\<forall>(u, v) \<in> ?A. u \<in> set (neighbors cw v) \<and> v \<in> set (variables cw)"
  proof (clarify)
    fix u v assume "(u, v) \<in> ?A"
    then have u: "u \<in> set (variables cw)" and v: "v \<in> set (variables cw)"
      and uv: "v \<noteq> u" and ov: "overlaps cw v u \<noteq> None"
      using keys by (auto simp: all_arcs_set neighbors_iff)
    from ov obtain k l where "overlaps cw v u = Some (k, l)" by auto
    from symmetric_overlapsD[OF sym v u this] have "overlaps cw u v \<noteq> None" by simp
    with u v uv show "u \<in> set (neighbors cw v) \<and> v \<in> set (variables cw)"
      by (auto simp: neighbors_iff)
  qed
  from res have lp: "ac3_loop cw (rev (all_arcs cw D)) D = Inr (True, D')"
    by (simp add: ac3_def)
  have "\<forall>(u, v) \<in> ?A. (u, v) \<in> set (rev (all_arcs cw D)) \<or> arc_settled cw D u v" by auto
  from ac3_loop_settles[OF sym A lp this] have all: "\<forall>(u, v) \<in> ?A. arc_settled cw D' u v" .
  from symmetric_overlapsD[OF sym x y Some[unfolded c]] have "overlaps cw y x \<noteq> None" by simp
  with x y ne keys have "(x, y) \<in> ?A" by (auto simp: all_arcs_set neighbors_iff)
  with all show ?thesis by auto
qed

lemma revise_settled_fixed:
  assumes st: "arc_settled cw D x y" and d: "distinct (domain_of D x)"
    and kx: "x \<in> fst ` set D" and ky: "y \<in> fst ` set D"
  shows "revise cw D x y = Inr (False, D)"
proof (cases "overlaps cw x y")
  case None
  then show ?thesis by (simp add: revise_def)
next
  case (Some c)
  obtain i j where c: "c = (i, j)" by (cases c)
  from kx obtain xs where xs: "map_of D x = Some xs"
    by (metis domIff dom_map_of_conv_image_fst not_Some_eq)
  from ky obtain ys where ys: "map_of D y = Some ys"
    by (metis domIff dom_map_of_conv_image_fst not_Some_eq)
  from xs ys have dx: "domain_of D x = xs" and dy: "domain_of D y = ys"
    by (simp_all add: domain_of_def)
  from st Some c dx dy have sup: "\<forall>w \<in> set xs. supported i j ys w"
    and rg: "\<forall>xw \<in> set xs. \<forall>yw \<in> set ys. xw = yw \<or> (i < length xw \<and> j < length yw)"
    by (simp_all add: arc_settled_def arc_consistent_def arc_safe_def)
  from sup have f: "filter (supported i j ys) xs = xs" by simp
  from d dx have "distinct xs" by simp
  from revise_ok_pairwise[OF Some[unfolded c] xs ys this rg] f
  show ?thesis by (simp add: update_triv[OF xs])
qed

text \<open>
  Claim C4. When \<^verbatim>\<open>ac3\<close> runs on the default worklist and returns \<^verbatim>\<open>True\<close>, the store
  it leaves is arc consistent for every ordered pair of distinct slots \<open>(x, y)\<close> with a
  defined overlap: every word left for \<open>x\<close> has a different word in the domain of \<open>y\<close>
  with the same character at the crossing. Equivalently it is a fixed point: a further
  \<^verbatim>\<open>revise(x, y)\<close> returns \<^verbatim>\<open>False\<close> and changes no domain. The puzzle's overlaps are
  symmetric, the store has a domain (a set of words) for each slot.
\<close>

theorem ac3_fixed_point:
  assumes "symmetric_overlaps cw"
    and "set (map fst D) = set (variables cw)"
    and "\<forall>z. distinct (domain_of D z)"
    and "ac3 cw None D = Inr (True, D')"
  shows "\<forall>x \<in> set (variables cw). \<forall>y \<in> set (variables cw). x \<noteq> y \<longrightarrow>
     (\<forall>i j. overlaps cw x y = Some (i, j) \<longrightarrow>
        (\<forall>w \<in> set (domain_of D' x). \<exists>w' \<in> set (domain_of D' y). w \<noteq> w' \<and> w ! i = w' ! j))
     \<and> revise cw D' x y = Inr (False, D')"
proof (intro ballI impI)
  fix x y assume x: "x \<in> set (variables cw)" and y: "y \<in> set (variables cw)" and ne: "x \<noteq> y"
  from ac3_settles[OF assms(1,2,4) x y ne] have st: "arc_settled cw D' x y" .
  from assms(4) have k: "map fst D' = map fst D" by (rule ac3_keys)
  then have "set (map fst D') = set (map fst D)" by simp
  with assms(2) x y have kx: "x \<in> fst ` set D'" and ky: "y \<in> fst ` set D'" by auto
  from assms(4) have "ac3_loop cw (rev (all_arcs cw D)) D = Inr (True, D')" by (simp add: ac3_def)
  from ac3_loop_distinct[OF this assms(3)] have d: "distinct (domain_of D' x)" by simp
  have "\<forall>i j. overlaps cw x y = Some (i, j) \<longrightarrow>
        (\<forall>w \<in> set (domain_of D' x). \<exists>w' \<in> set (domain_of D' y). w \<noteq> w' \<and> w ! i = w' ! j)"
    using st by (auto simp: arc_settled_def arc_consistent_def supported_def)
  moreover have "revise cw D' x y = Inr (False, D')"
    using st d kx ky by (rule revise_settled_fixed)
  ultimately show "(\<forall>i j. overlaps cw x y = Some (i, j) \<longrightarrow>
        (\<forall>w \<in> set (domain_of D' x). \<exists>w' \<in> set (domain_of D' y). w \<noteq> w' \<and> w ! i = w' ! j))
     \<and> revise cw D' x y = Inr (False, D')" by blast
qed

theorem ac3_fixed_point_witness:
  "ac3 two_slots None (enforce_node_consistency (init_domains two_slots)) =
     Inr (True, [(slotA, [''CAT'', ''TAP'']), (slotB, [''ART''])])
   \<and> revise two_slots [(slotA, [''CAT'', ''TAP'']), (slotB, [''ART''])] slotA slotB =
     Inr (False, [(slotA, [''CAT'', ''TAP'']), (slotB, [''ART''])])
   \<and> (\<exists>w' \<in> set (domain_of [(slotA, [''CAT'', ''TAP'']), (slotB, [''ART''])] slotB).
         ''TAP'' \<noteq> w' \<and> ''TAP'' ! 1 = w' ! 0)"
proof -
  let ?D = "enforce_node_consistency (init_domains two_slots)"
  let ?D' = "[(slotA, [''CAT'', ''TAP'']), (slotB, [''ART''])]"
  have h1: "symmetric_overlaps two_slots" by code_simp
  have h2: "set (map fst ?D) = set (variables two_slots)"
    by (simp add: map_fst_enforce_node_consistency init_domains_def comp_def)
  have D: "?D = [(slotA, [''CAT'', ''DOG'', ''TAP'', ''ART'']), (slotB, [''CAT'', ''DOG'', ''TAP'', ''ART''])]"
    by code_simp
  have h3: "\<forall>z. distinct (domain_of ?D z)"
    unfolding D by (simp add: domain_of_def)
  have h4: "ac3 two_slots None ?D = Inr (True, ?D')" by code_simp
  have a: "slotA \<in> set (variables two_slots)" and b: "slotB \<in> set (variables two_slots)"
    and ne: "slotA \<noteq> slotB" and ov: "overlaps two_slots slotA slotB = Some (1, 0)"
    and m: "''TAP'' \<in> set (domain_of ?D' slotA)"
    by (simp_all add: two_slots_def slotA_def slotB_def domain_of_def)
  from ac3_fixed_point[OF h1 h2 h3 h4] a b ne
  have "(\<forall>i j. overlaps two_slots slotA slotB = Some (i, j) \<longrightarrow>
        (\<forall>w \<in> set (domain_of ?D' slotA). \<exists>w' \<in> set (domain_of ?D' slotB). w \<noteq> w' \<and> w ! i = w' ! j))
     \<and> revise two_slots ?D' slotA slotB = Inr (False, ?D')"
    by blast
  with ov m h4 show ?thesis by blast
qed

section \<open>How AC-3 reports failure\<close>

termination ac3_trace
proof (relation "measures [\<lambda>(cw, q, D). total_size D, \<lambda>(cw, q, D). length q]")
qed (auto dest: revise_total_size)

lemma revise_revised_to_empty:
  assumes rv: "revise cw D x y = Inr (r, D1)"
  shows "revised_to_empty (x, y, D, r, D1) = (r \<and> domain_of D1 x = [])"
    and "r \<Longrightarrow> map_of D1 x = Some (domain_of D1 x)"
proof -
  show "revised_to_empty (x, y, D, r, D1) = (r \<and> domain_of D1 x = [])"
  proof (cases "overlaps cw x y")
    case None
    with rv show ?thesis by (auto simp: revise_def revised_to_empty_def)
  next
    case (Some c)
    obtain i j where "c = (i, j)" by (cases c)
    with Some have "overlaps cw x y = Some (i, j)" by simp
    from revise_Inr[OF rv this] obtain xs new where
      xs: "map_of D x = Some xs" and D1: "D1 = AList.update x new D"
      and r: "r = (length new < length xs)" by blast
    have "domain_of D x = xs" using xs by (simp add: domain_of_def)
    moreover have "domain_of D1 x = new" by (simp add: D1 domain_of_update)
    ultimately show ?thesis using r by (auto simp: revised_to_empty_def)
  qed
next
  assume r
  show "map_of D1 x = Some (domain_of D1 x)"
  proof (cases "overlaps cw x y")
    case None
    with rv \<open>r\<close> show ?thesis by (auto simp: revise_def)
  next
    case (Some c)
    obtain i j where "c = (i, j)" by (cases c)
    with Some have "overlaps cw x y = Some (i, j)" by simp
    from revise_Inr[OF rv this] obtain new where "D1 = AList.update x new D" by blast
    then show ?thesis by (simp add: domain_of_def update_conv')
  qed
qed

lemma ac3_loop_trace:
  "ac3_loop cw q D = Inr (b, D') \<Longrightarrow>
   \<exists>calls left. ac3_trace cw q D = (calls, left)
     \<and> (b \<longrightarrow> left = [] \<and> (\<forall>c \<in> set calls. \<not> revised_to_empty c))
     \<and> (\<not> b \<longrightarrow> calls \<noteq> [] \<and> revised_to_empty (last calls) \<and> (\<forall>c \<in> set (butlast calls). \<not> revised_to_empty c)
            \<and> store_after (last calls) = D')"
proof (induction cw q D rule: ac3_loop.induct)
  case (1 cw D)
  then show ?case by simp
next
  case (2 cw x y arc_queue D)
  note res = "2.prems"
  from res obtain r D1 where rv: "revise cw D x y = Inr (r, D1)"
    by (auto split: sum.splits)
  note em = revise_revised_to_empty[OF rv]
  let ?c = "(x, y, D, r, D1)"
  show ?case
  proof (cases r)
    case True
    from em(2)[OF True] have ws: "map_of D1 x = Some (domain_of D1 x)" .
    show ?thesis
    proof (cases "length (domain_of D1 x) = 0")
      case e: True
      with res rv True ws have "b = False" "D' = D1" by auto
      moreover have "ac3_trace cw ((x, y) # arc_queue) D = ([?c], arc_queue)"
        using rv True ws e by simp
      moreover have "revised_to_empty ?c" using em(1) True e by simp
      ultimately show ?thesis by (simp add: store_after_def)
    next
      case ne: False
      with res rv True ws have lp: "ac3_loop cw (rev (requeue cw x y) @ arc_queue) D1 = Inr (b, D')"
        by simp
      from "2.IH"(1)[OF rv refl True ws ne lp] obtain calls left where
        t: "ac3_trace cw (rev (requeue cw x y) @ arc_queue) D1 = (calls, left)"
        and p1: "b \<longrightarrow> left = [] \<and> (\<forall>c \<in> set calls. \<not> revised_to_empty c)"
        and p2: "\<not> b \<longrightarrow> calls \<noteq> [] \<and> revised_to_empty (last calls)
            \<and> (\<forall>c \<in> set (butlast calls). \<not> revised_to_empty c) \<and> store_after (last calls) = D'"
        by blast
      have tr: "ac3_trace cw ((x, y) # arc_queue) D = (?c # calls, left)"
        using rv True ws ne t by simp
      have nem: "\<not> revised_to_empty ?c" using em(1) ne by simp
      from p1 p2 nem show ?thesis unfolding tr by (cases calls) auto
    qed
  next
    case False
    with res rv have lp: "ac3_loop cw arc_queue D1 = Inr (b, D')" by simp
    from "2.IH"(2)[OF rv refl False lp] obtain calls left where
      t: "ac3_trace cw arc_queue D1 = (calls, left)"
      and p1: "b \<longrightarrow> left = [] \<and> (\<forall>c \<in> set calls. \<not> revised_to_empty c)"
      and p2: "\<not> b \<longrightarrow> calls \<noteq> [] \<and> revised_to_empty (last calls)
          \<and> (\<forall>c \<in> set (butlast calls). \<not> revised_to_empty c) \<and> store_after (last calls) = D'"
      by blast
    have tr: "ac3_trace cw ((x, y) # arc_queue) D = (?c # calls, left)"
      using rv False t by simp
    have nem: "\<not> revised_to_empty ?c" using em(1) False by simp
    from p1 p2 nem show ?thesis unfolding tr by (cases calls) auto
  qed
qed

text \<open>
  What the loop does report. \<^verbatim>\<open>ac3\<close> returns \<^verbatim>\<open>False\<close> exactly when one of its calls
  of \<^verbatim>\<open>revise\<close> took the last words of a domain. That call is then the last one made
  (the loop returns at once, the arcs still on the worklist are not processed) and the store
  returned is the one it left. Otherwise the loop stops with the worklist exhausted and
  \<^verbatim>\<open>ac3\<close> returns \<^verbatim>\<open>True\<close>.
\<close>

lemma ac3_reports_revised_to_empty:
  assumes "ac3 cw arcs D = Inr (b, D')"
  shows "\<exists>calls left. ac3_calls cw arcs D = (calls, left)
     \<and> (\<not> b \<longleftrightarrow> (\<exists>c \<in> set calls. revised_to_empty c))
     \<and> (\<not> b \<longrightarrow> calls \<noteq> [] \<and> revised_to_empty (last calls) \<and> (\<forall>c \<in> set (butlast calls). \<not> revised_to_empty c)
            \<and> store_after (last calls) = D')
     \<and> (b \<longrightarrow> left = [])"
proof -
  let ?q = "rev (case arcs of None \<Rightarrow> all_arcs cw D | Some given \<Rightarrow> given)"
  from assms have "ac3_loop cw ?q D = Inr (b, D')" by (simp add: ac3_def)
  from ac3_loop_trace[OF this] obtain calls left where
    t: "ac3_trace cw ?q D = (calls, left)"
    and p1: "b \<longrightarrow> left = [] \<and> (\<forall>c \<in> set calls. \<not> revised_to_empty c)"
    and p2: "\<not> b \<longrightarrow> calls \<noteq> [] \<and> revised_to_empty (last calls)
        \<and> (\<forall>c \<in> set (butlast calls). \<not> revised_to_empty c) \<and> store_after (last calls) = D'"
    by blast
  have "\<not> b \<longleftrightarrow> (\<exists>c \<in> set calls. revised_to_empty c)"
  proof
    assume "\<not> b"
    with p2 have "calls \<noteq> []" "revised_to_empty (last calls)" by auto
    then show "\<exists>c \<in> set calls. revised_to_empty c" using last_in_set by blast
  next
    assume "\<exists>c \<in> set calls. revised_to_empty c"
    with p1 show "\<not> b" by blast
  qed
  with t p1 p2 show ?thesis by (simp add: ac3_calls_def)
qed

lemma ac3_reports_revised_to_empty_example:
  "ac3 two_slots_short None (enforce_node_consistency (init_domains two_slots_short)) =
     Inr (False, [(slotA, [''CAT'', ''DOG'', ''TAP'']), (slotB, [])])
   \<and> (\<exists>calls left. ac3_calls two_slots_short None
          (enforce_node_consistency (init_domains two_slots_short)) = (calls, left)
        \<and> revised_to_empty (last calls)
        \<and> store_after (last calls) = [(slotA, [''CAT'', ''DOG'', ''TAP'']), (slotB, [])])"
proof -
  have e: "ac3 two_slots_short None (enforce_node_consistency (init_domains two_slots_short)) =
     Inr (False, [(slotA, [''CAT'', ''DOG'', ''TAP'']), (slotB, [])])"
    by code_simp
  from ac3_reports_revised_to_empty[OF e] e show ?thesis by auto
qed

text \<open>
  Claim C5 at a store whose domains are empty before propagation starts (the pool has no
  word of the slots' length): both calls of \<^verbatim>\<open>revise\<close> leave the domain of their first
  slot empty, the worklist is exhausted, the store ends with every domain empty, and
  \<^verbatim>\<open>ac3\<close> returns \<^verbatim>\<open>True\<close>. The emptiness test sits behind the flag
  \<^verbatim>\<open>isRevised\<close>, which a call on an empty domain does not set.
\<close>

theorem ac3_true_with_domains_left_empty:
  "enforce_node_consistency (init_domains two_slots_malformed) = [(slotA, []), (slotB, [])]
   \<and> ac3 two_slots_malformed None [(slotA, []), (slotB, [])] =
       Inr (True, [(slotA, []), (slotB, [])])
   \<and> ac3_calls two_slots_malformed None [(slotA, []), (slotB, [])] =
       ([(slotB, slotA, [(slotA, []), (slotB, [])], False, [(slotA, []), (slotB, [])]),
         (slotA, slotB, [(slotA, []), (slotB, [])], False, [(slotA, []), (slotB, [])])], [])
   \<and> left_empty (slotB, slotA, [(slotA, []), (slotB, [])], False, [(slotA, []), (slotB, [])])
   \<and> left_empty (slotA, slotB, [(slotA, []), (slotB, [])], False, [(slotA, []), (slotB, [])])
   \<and> revise two_slots_malformed [(slotA, []), (slotB, [])] slotB slotA =
       Inr (False, [(slotA, []), (slotB, [])])
   \<and> solve two_slots_malformed = Inr None"
  by code_simp

section \<open>The verdict of the consistency check is never used\<close>

lemma backtrack_ac3_partial:
  "backtrack_ac3_backtrack_ac3_loop_dom (Inl (cw, a, D)) \<Longrightarrow>
     (\<forall>r a' D'. backtrack_ac3 cw a D = Inr (r, a', D') \<longrightarrow>
        map fst D' = map fst D \<and> fst ` set a \<subseteq> fst ` set a')"
  "backtrack_ac3_backtrack_ac3_loop_dom (Inr (cw, var, vals, a, D)) \<Longrightarrow>
     (\<forall>r a' D'. backtrack_ac3_loop cw var vals a D = Inr (r, a', D') \<longrightarrow>
        map fst D' = map fst D \<and> fst ` set a \<subseteq> insert var (fst ` set a'))"
proof (induction rule: backtrack_ac3_backtrack_ac3_loop.pinduct)
  case (1 cw a D)
  show ?case
  proof (intro allI impI)
    fix r a' D'
    assume res: "backtrack_ac3 cw a D = Inr (r, a', D')"
    show "map fst D' = map fst D \<and> fst ` set a \<subseteq> fst ` set a'"
    proof (cases "assignment_complete a D")
      case True
      with res "1.hyps" show ?thesis by (simp add: backtrack_ac3.psimps)
    next
      case False
      with res "1.hyps" obtain var vals where
        sel: "select_unassigned_variable cw D a = Inr (Some var)"
        and ord: "order_domain_values cw D var a = Inr vals"
        and lp: "backtrack_ac3_loop cw var vals a D = Inr (r, a', D')"
        by (auto simp: backtrack_ac3.psimps split: sum.splits option.splits)
      from "1.IH"[OF False sel refl ord] lp
      have "map fst D' = map fst D" "fst ` set a \<subseteq> insert var (fst ` set a')"
        by auto
      moreover from select_unassigned_variable_mem[OF sel] have "var \<notin> fst ` set a" by simp
      ultimately show ?thesis by auto
    qed
  qed
next
  case (2 cw unassigned_var a D)
  then show ?case by (auto simp: backtrack_ac3_loop.psimps)
next
  case (3 cw var "value" rest a D)
  show ?case
  proof (intro allI impI)
    fix r a' D'
    assume res: "backtrack_ac3_loop cw var (value # rest) a D = Inr (r, a', D')"
    from res "3.hyps" obtain c D1 vals' where
      con: "ac3 cw None D = Inr (c, D1)"
      and ord: "order_domain_values cw D1 var a = Inr vals'"
      by (auto simp: backtrack_ac3_loop.psimps split: sum.splits)
    note k1 = ac3_keys[OF con]
    from order_domain_values_key[OF ord] obtain ws where ws: "map_of D1 var = Some ws" by blast
    show "map fst D' = map fst D \<and> fst ` set a \<subseteq> insert var (fst ` set a')"
    proof (cases "value \<in> set vals'")
      case False
      with res "3.hyps" con ord have "backtrack_ac3_loop cw var rest a D1 = Inr (r, a', D')"
        by (simp add: backtrack_ac3_loop.psimps)
      with "3.IH"(3)[OF con refl ord False] k1 show ?thesis by simp
    next
      case True
      let ?a1 = "AList.update var value a" and ?D1 = "AList.update var [value] D1"
      from res "3.hyps" con ord True obtain r2 a2 D2 where
        bt: "backtrack_ac3 cw ?a1 ?D1 = Inr (r2, a2, D2)"
        by (auto simp: backtrack_ac3_loop.psimps split: sum.splits)
      from "3.IH"(1)[OF con refl ord True] bt
      have kD2: "map fst D2 = map fst ?D1" and ka2: "fst ` set ?a1 \<subseteq> fst ` set a2" by auto
      have kD1: "map fst ?D1 = map fst D" using map_fst_update_present[OF ws] k1 by simp
      have ka: "fst ` set a \<subseteq> fst ` set a2" using ka2 by (auto simp: dom_update)
      show ?thesis
      proof (cases r2)
        case (Some res')
        with res "3.hyps" con ord True bt have "r = Some res'" "a' = a2" "D' = D2"
          by (auto simp: backtrack_ac3_loop.psimps)
        with kD2 kD1 ka show ?thesis by auto
      next
        case None
        with res "3.hyps" con ord True bt have mem: "var \<in> set (map fst a2)"
          and lp: "backtrack_ac3_loop cw var rest (AList.delete var a2) D2 = Inr (r, a', D')"
          by (auto simp: backtrack_ac3_loop.psimps split: if_splits)
        from "3.IH"(2)[OF con refl ord True bt refl None refl mem] lp
        have e1: "map fst D' = map fst D2"
          and e2: "fst ` set (AList.delete var a2) \<subseteq> insert var (fst ` set a')"
          by auto
        from e2 ka have "fst ` set a \<subseteq> insert var (fst ` set a')"
          unfolding fst_set_delete by blast
        with e1 kD2 kD1 show ?thesis by simp
      qed
    qed
  qed
qed

termination backtrack_ac3
proof (relation "measures
    [\<lambda>x. case x of
        Inl (cw, a, D) \<Rightarrow> card (fst ` set D - fst ` set a)
      | Inr (cw, var, vals, a, D) \<Rightarrow> card (fst ` set D - insert var (fst ` set a)),
     \<lambda>x. case x of Inl _ \<Rightarrow> 0 | Inr _ \<Rightarrow> 1,
     \<lambda>x. case x of Inl _ \<Rightarrow> 0 | Inr (cw, var, vals, a, D) \<Rightarrow> length vals]",
    goal_cases)
  case 1
  then show ?case by simp
next
  case (2 cw a D x2 x2a x2b)
  then show ?case
    using select_unassigned_variable_mem[of cw D a x2a] unassigned_count_insert[of x2a D a]
    by simp
next
  case (3 cw var "value" rest a D b x y ba)
  from 3 have k: "map fst y = map fst D" using ac3_keys[of cw None D x y] by simp
  from 3 obtain ws where "map_of y var = Some ws" using order_domain_values_key by blast
  from map_fst_update_present[OF this, of "[value]"] k
  have "set (map fst (AList.update var [value] y)) = set (map fst D)" by simp
  then have "fst ` set (AList.update var [value] y) = fst ` set D" by simp
  then show ?case by (simp add: dom_update)
next
  case (4 cw var "value" rest a D b x y ba bb xa ya xb yb)
  let ?a1 = "AList.update var value a" and ?D1 = "AList.update var [value] y"
  from 4 have k: "map fst y = map fst D" using ac3_keys[of cw None D x y] by simp
  from 4 obtain ws where "map_of y var = Some ws" using order_domain_values_key by blast
  from map_fst_update_present[OF this, of "[value]"] k
  have kD1: "map fst ?D1 = map fst D" by simp
  from 4 have bt: "backtrack_ac3 cw ?a1 ?D1 = Inr (None, xb, yb)" by simp
  from 4 have dm: "backtrack_ac3_backtrack_ac3_loop_dom (Inl (cw, ?a1, ?D1))" by simp
  from backtrack_ac3_partial(1)[OF dm] bt
  have "map fst yb = map fst ?D1" and ka: "fst ` set ?a1 \<subseteq> fst ` set xb" by auto
  with kD1 have "set (map fst yb) = set (map fst D)" by simp
  then have kyb: "fst ` set yb = fst ` set D" by simp
  from ka have "fst ` set a \<subseteq> fst ` set xb" by (auto simp: dom_update)
  then have "fst ` set D - insert var (fst ` set (AList.delete var xb))
      \<subseteq> fst ` set D - insert var (fst ` set a)"
    unfolding fst_set_delete by blast
  then have "card (fst ` set D - insert var (fst ` set (AList.delete var xb)))
      \<le> card (fst ` set D - insert var (fst ` set a))"
    by (intro card_mono) auto
  with kyb show ?case by (simp add: less_or_eq_imp_le le_less)
next
  case (5 cw var "value" rest a D b x y ba)
  from 5 have k: "map fst y = map fst D" using ac3_keys[of cw None D x y] by simp
  then have "set (map fst y) = set (map fst D)" by simp
  then have "fst ` set y = fst ` set D" by simp
  then show ?case by simp
qed

lemma consistent_inner_total:
  assumes rng: "overlaps_in_range cw" and l1: "var_length var1 = length word1"
    and la: "\<forall>(k, v) \<in> set rest. var_length k = length v"
  shows "\<exists>ok. consistent_inner cw var1 word1 rest = Inr ok"
  using la
proof (induction rest)
  case Nil
  show ?case by auto
next
  case (Cons p rest)
  obtain var2 word2 where p: "p = (var2, word2)" by (cases p)
  from Cons.prems p have l2: "var_length var2 = length word2" by simp
  from Cons obtain ok where ih: "consistent_inner cw var1 word1 rest = Inr ok" by auto
  show ?case
  proof (cases "overlaps cw var1 var2")
    case None
    with ih p show ?thesis by auto
  next
    case (Some c)
    obtain i j where c: "c = (i, j)" by (cases c)
    from rng Some c have "i < var_length var1 \<and> j < var_length var2"
      unfolding overlaps_in_range_def by blast
    with l1 l2 have "i < length word1" "j < length word2" by simp_all
    with ih p Some c show ?thesis by (auto simp: char_at_def)
  qed
qed

lemma consistent_outer_total:
  assumes rng: "overlaps_in_range cw"
    and la: "\<forall>(k, v) \<in> set a. var_length k = length v"
  shows "\<forall>(k, v) \<in> set rest. var_length k = length v \<Longrightarrow>
     \<exists>ok. consistent_outer cw rest a = Inr ok"
proof (induction rest)
  case Nil
  show ?case by auto
next
  case (Cons p rest)
  obtain var1 word1 where p: "p = (var1, word1)" by (cases p)
  from Cons.prems p have l1: "var_length var1 = length word1" by simp
  from consistent_inner_total[OF rng l1 la] obtain ok1 where
    i: "consistent_inner cw var1 word1 a = Inr ok1" by blast
  from Cons obtain ok where "consistent_outer cw rest a = Inr ok" by auto
  with i p show ?case by auto
qed

text \<open>
  The check of \<^verbatim>\<open>consistent\<close> after its \<^verbatim>\<open>ac3\<close> call cannot raise: a word of the
  wrong length is caught first, and then every index it reads is inside the word.
\<close>

lemma consistent_as_ac3:
  assumes "overlaps_in_range cw"
  shows "(case consistent cw a D of Inl e \<Rightarrow> Inl e | Inr (ok, D1) \<Rightarrow> Inr D1) =
         (case ac3 cw None D of Inl e \<Rightarrow> Inl e | Inr (b, D1) \<Rightarrow> Inr D1)"
proof (cases "ac3 cw None D")
  case (Inl e)
  then show ?thesis by (simp add: consistent_def)
next
  case (Inr p)
  obtain b D1 where p: "p = (b, D1)" by (cases p)
  show ?thesis
  proof (cases "list_ex (\<lambda>(key, val). var_length key \<noteq> length val) a")
    case True
    with Inr p show ?thesis by (simp add: consistent_def)
  next
    case False
    then have la: "\<forall>(k, v) \<in> set a. var_length k = length v"
      by (auto simp: list_ex_iff)
    from consistent_outer_total[OF assms la la] obtain ok where
      "consistent_outer cw a a = Inr ok" by blast
    with Inr p False show ?thesis by (simp add: consistent_def)
  qed
qed

lemma backtrack_loop_unfold_ac3:
  assumes "overlaps_in_range cw"
  shows "backtrack_loop cw var (value # rest) a D =
     (case ac3 cw None D of
        Inl e \<Rightarrow> Inl e
      | Inr (_, D1) \<Rightarrow>
          (case order_domain_values cw D1 var a of
             Inl e \<Rightarrow> Inl e
           | Inr vals' \<Rightarrow>
               (if value \<in> set vals' then
                  (case backtrack cw (AList.update var value a) (AList.update var [value] D1) of
                     Inl e \<Rightarrow> Inl e
                   | Inr (Some result, a', D2) \<Rightarrow> Inr (Some result, a', D2)
                   | Inr (None, a', D2) \<Rightarrow>
                       (if var \<in> set (map fst a')
                        then backtrack_loop cw var rest (AList.delete var a') D2
                        else Inl KeyError))
                else backtrack_loop cw var rest a D1)))"
  using consistent_as_ac3[OF assms, of a D]
  by (cases "consistent cw a D"; cases "ac3 cw None D") (auto split: prod.splits)

lemma consistent_of_ac3:
  assumes "overlaps_in_range cw" and "ac3 cw None D = Inr (b, D1)"
  shows "\<exists>ok. consistent cw a D = Inr (ok, D1)"
  using consistent_as_ac3[OF assms(1), of a D] assms(2)
  by (cases "consistent cw a D") (auto split: prod.splits)

lemma backtrack_eq_backtrack_ac3:
  "overlaps_in_range cw \<Longrightarrow> backtrack cw a D = backtrack_ac3 cw a D"
  "overlaps_in_range cw \<Longrightarrow> backtrack_loop cw var vals a D = backtrack_ac3_loop cw var vals a D"
proof (induction cw a D and cw var vals a D rule: backtrack_backtrack_loop.induct)
  case (1 cw a D)
  show ?case
  proof (cases "assignment_complete a D")
    case True
    then show ?thesis by simp
  next
    case nc: False
    show ?thesis
    proof (cases "select_unassigned_variable cw D a")
      case (Inl e)
      with nc show ?thesis by simp
    next
      case (Inr sel)
      show ?thesis
      proof (cases sel)
        case None
        with nc Inr show ?thesis by simp
      next
        case (Some var)
        show ?thesis
        proof (cases "order_domain_values cw D var a")
          case (Inl e)
          with nc Inr Some show ?thesis by simp
        next
          case ord: (Inr vals)
          from "1.IH"[OF nc Inr Some ord "1.prems"]
          have "backtrack_loop cw var vals a D = backtrack_ac3_loop cw var vals a D" .
          with nc Inr Some ord show ?thesis by simp
        qed
      qed
    qed
  qed
next
  case (2 cw unassigned_var a D)
  show ?case by simp
next
  case (3 cw var "value" rest a D)
  note rng = "3.prems"
  show ?case
  proof (cases "ac3 cw None D")
    case (Inl e)
    then show ?thesis by (simp add: backtrack_loop_unfold_ac3[OF rng] del: backtrack_loop.simps)
  next
    case (Inr p)
    obtain b D1 where p: "p = (b, D1)" by (cases p)
    from consistent_of_ac3[OF rng Inr[unfolded p]] obtain ok where
      con: "consistent cw a D = Inr (ok, D1)" by blast
    show ?thesis
    proof (cases "order_domain_values cw D1 var a")
      case (Inl e)
      with Inr p show ?thesis
        by (simp add: backtrack_loop_unfold_ac3[OF rng] del: backtrack_loop.simps)
    next
      case ord: (Inr vals')
      show ?thesis
      proof (cases "value \<in> set vals'")
        case False
        from "3.IH"(3)[OF con refl ord False rng]
        have "backtrack_loop cw var rest a D1 = backtrack_ac3_loop cw var rest a D1" .
        with Inr p ord False show ?thesis
          by (simp add: backtrack_loop_unfold_ac3[OF rng] del: backtrack_loop.simps)
      next
        case True
        let ?a1 = "AList.update var value a" and ?D1 = "AList.update var [value] D1"
        from "3.IH"(1)[OF con refl ord True rng]
        have eq1: "backtrack cw ?a1 ?D1 = backtrack_ac3 cw ?a1 ?D1" .
        show ?thesis
        proof (cases "backtrack cw ?a1 ?D1")
          case (Inl e)
          with eq1 have bt': "backtrack_ac3 cw ?a1 ?D1 = Inl e" by simp
          from Inr p ord True Inl bt' show ?thesis
            by (simp add: backtrack_loop_unfold_ac3[OF rng] del: backtrack_loop.simps backtrack.simps backtrack_ac3.simps)
        next
          case bt: (Inr q)
          obtain r2 a2 D2 where q: "q = (r2, a2, D2)" by (cases q)
          from bt q have bt1: "backtrack cw ?a1 ?D1 = Inr (r2, a2, D2)" by simp
          with eq1 have bt': "backtrack_ac3 cw ?a1 ?D1 = Inr (r2, a2, D2)" by simp
          show ?thesis
          proof (cases r2)
            case (Some res)
            with Inr p ord True bt1 bt' show ?thesis
              by (simp add: backtrack_loop_unfold_ac3[OF rng] del: backtrack_loop.simps backtrack.simps backtrack_ac3.simps)
          next
            case None
            show ?thesis
            proof (cases "var \<in> set (map fst a2)")
              case False
              with Inr p ord True bt1 bt' None show ?thesis
                by (simp add: backtrack_loop_unfold_ac3[OF rng] del: backtrack_loop.simps backtrack.simps backtrack_ac3.simps)
            next
              case mem: True
              from "3.IH"(2)[OF con refl ord True bt1 refl None refl mem rng]
              have "backtrack_loop cw var rest (AList.delete var a2) D2 =
                    backtrack_ac3_loop cw var rest (AList.delete var a2) D2" .
              with Inr p ord True bt1 bt' None mem show ?thesis
                by (simp add: backtrack_loop_unfold_ac3[OF rng] del: backtrack_loop.simps backtrack.simps backtrack_ac3.simps)
            qed
          qed
        qed
      qed
    qed
  qed
qed

text \<open>
  Claim C10. The verdict of \<^verbatim>\<open>consistent(assignment)\<close> never influences the search:
  for every puzzle (whose overlap indices lie inside its slots), every domain store and
  every assignment, \<^verbatim>\<open>backtrack\<close> returns the same value, leaves the same assignment
  dictionary and the same domain store, and raises the same exception, as the variant in
  which the call is replaced by a bare \<^verbatim>\<open>ac3()\<close>.
\<close>

theorem backtrack_ignores_consistent_verdict:
  assumes "overlaps_in_range cw"
  shows "backtrack cw a D = backtrack_ac3 cw a D"
  using assms by (rule backtrack_eq_backtrack_ac3(1))

theorem backtrack_ignores_consistent_verdict_witness:
  "backtrack_ac3 two_slots [] (enforce_node_consistency (init_domains two_slots)) =
     Inr (Some [(slotA, ''CAT''), (slotB, ''ART'')], [(slotA, ''CAT''), (slotB, ''ART'')],
          [(slotA, [''CAT'']), (slotB, [''ART''])])"
proof -
  have r: "overlaps_in_range two_slots"
    by (auto simp: overlaps_in_range_def two_slots_def slotA_def slotB_def split: if_splits)
  have e: "backtrack two_slots [] (enforce_node_consistency (init_domains two_slots)) =
     Inr (Some [(slotA, ''CAT''), (slotB, ''ART'')], [(slotA, ''CAT''), (slotB, ''ART'')],
          [(slotA, [''CAT'']), (slotB, [''ART''])])"
    by code_simp
  from backtrack_ignores_consistent_verdict[OF r, of "[]" "enforce_node_consistency (init_domains two_slots)"] e
  show ?thesis by simp
qed

section \<open>Undoing a tentative assignment\<close>

lemma delete_absent: "k \<notin> fst ` set al \<Longrightarrow> AList.delete k al = al"
  by (induction al) auto

lemma delete_update_absent:
  "k \<notin> fst ` set al \<Longrightarrow> AList.delete k (AList.update k v al) = al"
  by (simp add: delete_update_same delete_absent)

text \<open>A call that returns \<^verbatim>\<open>None\<close> leaves the assignment dictionary as it found it.\<close>

lemma backtrack_restores_assignment:
  "backtrack cw a D = Inr (None, a', D') \<Longrightarrow> a' = a"
  "var \<notin> fst ` set a \<Longrightarrow> backtrack_loop cw var vals a D = Inr (r, a', D') \<Longrightarrow> r = None \<Longrightarrow> a' = a"
proof (induction cw a D and cw var vals a D arbitrary: a' D' and r a' D'
    rule: backtrack_backtrack_loop.induct)
  case (1 cw a D)
  show ?case
  proof (cases "assignment_complete a D")
    case True
    with "1.prems" show ?thesis by simp
  next
    case False
    with "1.prems" obtain var vals where
      sel: "select_unassigned_variable cw D a = Inr (Some var)"
      and ord: "order_domain_values cw D var a = Inr vals"
      and lp: "backtrack_loop cw var vals a D = Inr (None, a', D')"
      by (auto split: sum.splits option.splits)
    from select_unassigned_variable_mem[OF sel] have "var \<notin> fst ` set a" by simp
    from "1.IH"[OF False sel refl ord this lp refl] show ?thesis .
  qed
next
  case (2 cw unassigned_var a D)
  then show ?case by simp
next
  case (3 cw var "value" rest a D)
  note nv = "3.prems"(1) and res = "3.prems"(2) and rn = "3.prems"(3)
  from res obtain c D1 vals' where
    con: "consistent cw a D = Inr (c, D1)"
    and ord: "order_domain_values cw D1 var a = Inr vals'"
    by (auto split: sum.splits)
  show ?case
  proof (cases "value \<in> set vals'")
    case False
    with res con ord have "backtrack_loop cw var rest a D1 = Inr (r, a', D')" by simp
    from "3.IH"(3)[OF con refl ord False nv this rn] show ?thesis .
  next
    case True
    let ?a1 = "AList.update var value a" and ?D1 = "AList.update var [value] D1"
    from res con ord True obtain r2 a2 D2 where
      bt: "backtrack cw ?a1 ?D1 = Inr (r2, a2, D2)"
      by (auto split: sum.splits)
    show ?thesis
    proof (cases r2)
      case (Some res')
      with res con ord True bt rn show ?thesis by auto
    next
      case None
      with res con ord True bt have mem: "var \<in> set (map fst a2)"
        and lp: "backtrack_loop cw var rest (AList.delete var a2) D2 = Inr (r, a', D')"
        by (auto split: if_splits)
      from "3.IH"(1)[OF con refl ord True bt[unfolded None]] have a2: "a2 = ?a1" .
      have del: "AList.delete var a2 = a" using a2 nv by (simp add: delete_update_absent)
      from nv del have "var \<notin> fst ` set (AList.delete var a2)" by simp
      from "3.IH"(2)[OF con refl ord True bt refl None refl mem this lp rn] del
      show ?thesis by simp
    qed
  qed
qed

text \<open>
  Claim C6, as the code has it. When the loop of \<^verbatim>\<open>backtrack\<close> has committed the word
  \<open>w\<close> for the unassigned slot \<open>s\<close> and the recursive call returns \<^verbatim>\<open>None\<close>, the call
  has left the assignment dictionary as it got it, so that deleting the entry of \<open>s\<close>
  gives back the assignment from before the commitment; the loop goes on with the domain
  store the failed call left, in which the domain of \<open>s\<close> is not restored: it holds no
  word but \<open>w\<close> (it is \<open>{w}\<close>, or empty when propagation inside the failed call emptied
  it).
\<close>

theorem domain_not_restored_on_backtrack:
  assumes "consistent cw a D = Inr (c, D1)"
    and "order_domain_values cw D1 s a = Inr vals'"
    and "w \<in> set vals'"
    and "backtrack cw (AList.update s w a) (AList.update s [w] D1) = Inr (None, a', D2)"
    and "s \<notin> fst ` set a"
  shows "a' = AList.update s w a \<and> AList.delete s a' = a
     \<and> set (domain_of D2 s) \<subseteq> {w}
     \<and> backtrack_loop cw s (w # rest) a D = backtrack_loop cw s rest a D2"
proof -
  from backtrack_restores_assignment(1)[OF assms(4)] have a': "a' = AList.update s w a" .
  with assms(5) have del: "AList.delete s a' = a" by (simp add: delete_update_absent)
  from backtrack_narrows(1)[OF assms(4)]
  have "set (domain_of D2 s) \<subseteq> set (domain_of (AList.update s [w] D1) s)"
    by (simp add: narrows_def)
  then have sub: "set (domain_of D2 s) \<subseteq> {w}" by (simp add: domain_of_update)
  have mem: "s \<in> set (map fst a')" using a' by (simp add: dom_update)
  have "backtrack_loop cw s (w # rest) a D = backtrack_loop cw s rest a D2"
    using assms(1,2,3,4) mem del by simp
  with a' del sub show ?thesis by simp
qed

theorem domain_not_restored_on_backtrack_witness:
  "backtrack_loop ring_puzzle ring_A1 [''CAT'', ''DOG''] [] ring_store =
     backtrack_loop ring_puzzle ring_A1 [''DOG''] [] ring_failed_store
   \<and> set (domain_of ring_failed_store ring_A1) \<subseteq> {''CAT''}
   \<and> AList.delete ring_A1 [(ring_A1, ''CAT'')] = []"
proof -
  have 1: "consistent ring_puzzle [] ring_store = Inr (True, ring_store)" by code_simp
  have 2: "order_domain_values ring_puzzle ring_store ring_A1 [] = Inr [''CAT'', ''DOG'']"
    by code_simp
  have 3: "''CAT'' \<in> set [''CAT'', ''DOG'']" by simp
  have 4: "backtrack ring_puzzle (AList.update ring_A1 ''CAT'' [])
      (AList.update ring_A1 [''CAT''] ring_store) = Inr (None, [(ring_A1, ''CAT'')], ring_failed_store)"
    by code_simp
  have 5: "ring_A1 \<notin> fst ` set []" by simp
  from domain_not_restored_on_backtrack[OF 1 2 3 4 5, of "[''DOG'']"] show ?thesis by simp
qed

text \<open>
  Claim C6 as it is worded fails where it says that the domain remains the singleton: in
  the ring puzzle the search commits \<open>CAT\<close> for \<open>ring_A1\<close>, the recursive call returns
  \<^verbatim>\<open>None\<close>, and the domain of \<open>ring_A1\<close> is then empty, not \<open>{CAT}\<close>.
\<close>

theorem domain_after_backtrack_not_singleton:
  "ac3 ring_puzzle None (enforce_node_consistency (init_domains ring_puzzle)) = Inr (True, ring_store)
   \<and> consistent ring_puzzle [] ring_store = Inr (True, ring_store)
   \<and> order_domain_values ring_puzzle ring_store ring_A1 [] = Inr [''CAT'', ''DOG'']
   \<and> backtrack ring_puzzle (AList.update ring_A1 ''CAT'' [])
        (AList.update ring_A1 [''CAT''] ring_store) = Inr (None, [(ring_A1, ''CAT'')], ring_failed_store)
   \<and> domain_of ring_failed_store ring_A1 = []
   \<and> domain_of ring_failed_store ring_A1 \<noteq> [''CAT'']
   \<and> domain_of ring_store ring_A1 = [''CAT'', ''DOG'']"
  by code_simp

section \<open>Soundness and completeness of solve\<close>

text \<open>
  Claim C1 at the ring puzzle: \<^verbatim>\<open>solve()\<close> returns a complete assignment whose words
  \<open>CAT\<close> (row 0) and \<open>GAMES\<close> (column 2) disagree at their crossing, the third character of
  the one and the first of the other. The puzzle has no solution at all.
\<close>

theorem solve_returns_inconsistent_assignment:
  "solve ring_puzzle_unsound =
     Inr (Some [(ring_A1, ''CAT''), (ring_D1, ''COLD''), (ring_A2, ''LAMENT''), (ring_D2, ''GAMES'')])
   \<and> overlaps ring_puzzle_unsound ring_A1 ring_D2 = Some (2, 0)
   \<and> ''CAT'' ! 2 = CHR ''T'' \<and> ''GAMES'' ! 0 = CHR ''G''
   \<and> fits ring_puzzle_unsound
        [(ring_A1, ''CAT''), (ring_D1, ''COLD''), (ring_A2, ''LAMENT''), (ring_D2, ''GAMES'')] = False
   \<and> filter (fits ring_puzzle_unsound)
        (all_fillings (variables ring_puzzle_unsound) (words ring_puzzle_unsound)) = []"
  by code_simp

text \<open>
  Claim C2 at a puzzle with exactly one solution, whose pool is the four words of the
  solution and nine decoys: \<^verbatim>\<open>solve()\<close> returns \<^verbatim>\<open>None\<close>, in whatever order the slots
  are iterated.
\<close>

theorem solve_misses_unique_solution:
  "filter (fits unique_puzzle) (all_fillings (variables unique_puzzle) (words unique_puzzle)) =
     [[(ring_A1, ''DOG''), (ring_A2, ''REMOTE''), (ring_D1, ''DARK''), (ring_D2, ''GAMES'')]]
   \<and> solve unique_puzzle = Inr None
   \<and> map (\<lambda>vs. solve (ring vs unique_pool)) (orders [ring_A1, ring_A2, ring_D1, ring_D2]) =
       replicate 24 (Inr None)"
  by code_simp

end
